theory Spec2Isabelle
  imports Complex_Main "HOL-Library.Multiset"
begin

section \<open>Data model (spp/core.py)\<close>

text \<open>
  Python integers are unbounded, hence \<open>int\<close>. The dataclass fields keep their names up
  to a prefix where the bare name would capture variables (\<open>id\<close>, \<open>w\<close>, \<open>h\<close>, \<open>x\<close>,
  \<open>y\<close>, \<open>W\<close>, \<open>H\<close>).
\<close>

record Rectangle =
  rect_ident :: int
  rect_w :: int
  rect_h :: int
  rotatable :: bool

record Placement =
  rect_id :: int
  pl_x :: int
  pl_y :: int
  w_eff :: int
  h_eff :: int
  rotated :: bool

text \<open>A forbidden zone is the tuple \<open>(x, y, w, h)\<close>.\<close>

type_synonym ForbiddenZone = "int \<times> int \<times> int \<times> int"

record Instance =
  strip_W :: int
  rectangles :: "Rectangle list"
  kerf_delta :: int
  forbidden_zones :: "ForbiddenZone list"

record Solution =
  sol_H :: int
  placements :: "Placement list"
  sol_method :: string
  optimality :: "string option"

text \<open>Every exception the modelled code can raise is a value.\<close>

datatype error =
    GeometryError int int int
      \<comment> \<open>\<open>ValueError("Rectangle {id} width {w_eff} exceeds strip width {W}")\<close>\<close>
  | UnknownPolicy
  | EmptySequence     \<comment> \<open>\<open>max()\<close> of an empty sequence\<close>
  | ZeroDivisionError
  | OverflowError     \<comment> \<open>\<open>integer division result too large for a float\<close>\<close>
  | KeyError int
  | IndexError
  | BackendUnavailable
  | StopIteration     \<comment> \<open>\<open>next()\<close> on an exhausted generator\<close>

definition area :: "Rectangle \<Rightarrow> int" where
  "area r = rect_w r * rect_h r"

text \<open>Python's \<open>max\<close> over a sequence: raises on the empty one.\<close>

fun py_max :: "int list \<Rightarrow> error + int" where
  "py_max [] = Inl EmptySequence"
| "py_max (v # vs) = Inr (fold max vs v)"

text \<open>
  \<open>A / self.W\<close> is Python's true division of two integers: the exact quotient rounded
  to the nearest double (binary64: 53 significant bits, exponents from \<open>-1022\<close> on, ties
  to the even significand). It raises \<open>ZeroDivisionError\<close> for a zero divisor and
  \<open>OverflowError\<close> when the rounded quotient leaves the range of the doubles.
\<close>

definition round_half_even :: "real \<Rightarrow> int" where
  "round_half_even r =
     (let f = \<lfloor>r\<rfloor> in
      if r - real_of_int f < 1 / 2 then f
      else if 1 / 2 < r - real_of_int f then f + 1
      else if even f then f else f + 1)"

definition float_exponent :: "real \<Rightarrow> int" where
  "float_exponent q = max \<lfloor>log 2 \<bar>q\<bar>\<rfloor> (- 1022)"

definition to_double :: "real \<Rightarrow> real" where
  "to_double q =
     (if q = 0 then 0
      else let u = 2 powr (real_of_int (float_exponent q) - 52)
           in u * real_of_int (round_half_even (q / u)))"

definition true_div :: "int \<Rightarrow> int \<Rightarrow> error + real" where
  "true_div a b =
     (if b = 0 then Inl ZeroDivisionError
      else let q = to_double (real_of_int a / real_of_int b)
           in if 2 powr 1024 \<le> \<bar>q\<bar> then Inl OverflowError else Inr q)"

text \<open>\<open>math.ceil(A / self.W)\<close>: the ceiling of that double.\<close>

definition area_lb :: "Instance \<Rightarrow> error + int" where
  "area_lb inst =
     (let A = sum_list (map area (rectangles inst)) in
      case true_div A (strip_W inst) of
        Inl e \<Rightarrow> Inl e
      | Inr q \<Rightarrow> Inr \<lceil>q\<rceil>)"

definition maxh_lb :: "Instance \<Rightarrow> bool \<Rightarrow> error + int" where
  "maxh_lb inst allow_rotation =
     (if allow_rotation
      then py_max (map (\<lambda>r. min (rect_h r) (rect_w r)) (rectangles inst))
      else py_max (map rect_h (rectangles inst)))"

subsection \<open>Solution.check_feasibility\<close>


definition separated :: "Placement \<Rightarrow> Placement \<Rightarrow> bool" where
  "separated a b \<longleftrightarrow>
     pl_x a + w_eff a \<le> pl_x b \<or> pl_x b + w_eff b \<le> pl_x a \<or>
     pl_y a + h_eff a \<le> pl_y b \<or> pl_y b + h_eff b \<le> pl_y a"

text \<open>\<open>itertools.combinations(placements, 2)\<close>: every pair in list order.\<close>

fun all_pairs_separated :: "Placement list \<Rightarrow> bool" where
  "all_pairs_separated [] = True"
| "all_pairs_separated (a # bs) = (list_all (separated a) bs \<and> all_pairs_separated bs)"



section \<open>Heuristic placement engine (spp/solvers/heuristics.py)\<close>

datatype policy = NFDH | Skyline | OtherPolicy

record HeuristicSolver =
  hs_instance :: Instance
  allow_rotation :: bool
  hpolicy :: policy
  guillotine :: bool

definition orient :: "Rectangle \<Rightarrow> bool \<Rightarrow> bool \<Rightarrow> int \<times> int \<times> bool" where
  "orient rect allow prefer_low =
     (if \<not> allow \<or> \<not> rotatable rect then (rect_w rect, rect_h rect, False)
      else if prefer_low then
        (if rect_h rect \<le> rect_w rect then (rect_w rect, rect_h rect, False)
         else (rect_h rect, rect_w rect, True))
      else (rect_w rect, rect_h rect, False))"

subsection \<open>Shelf policy\<close>

text \<open>
  \<open>items.sort(key=lambda t: t[1], reverse=True)\<close> is a stable sort by descending key,
  that is a stable ascending sort by the negated key.
\<close>

definition nfdh_items :: "Instance \<Rightarrow> bool \<Rightarrow> (Rectangle \<times> int) list" where
  "nfdh_items inst allow =
     sort_key (\<lambda>t. - snd t)
       (map (\<lambda>r. (r, fst (snd (orient r allow True)))) (rectangles inst))"

text \<open>
  The loop over the sorted items; the state is \<open>placements\<close>, \<open>x\<close>, \<open>shelf_y\<close>,
  \<open>shelf_h\<close> and \<open>first_in_shelf\<close>. The result carries the final \<open>shelf_y\<close> and
  \<open>shelf_h\<close>.
\<close>

fun nfdh_loop ::
  "int \<Rightarrow> int \<Rightarrow> bool \<Rightarrow> (Rectangle \<times> int) list \<Rightarrow> Placement list \<Rightarrow> int \<Rightarrow> int \<Rightarrow> int \<Rightarrow> bool
     \<Rightarrow> error + (Placement list \<times> int \<times> int)" where
  "nfdh_loop Wd d allow [] pls x shelf_y shelf_h first_in_shelf = Inr (pls, shelf_y, shelf_h)"
| "nfdh_loop Wd d allow ((r, _) # items) pls x shelf_y shelf_h first_in_shelf =
     (case orient r allow True of (we, he, rot) \<Rightarrow>
        if we > Wd then Inl (GeometryError (rect_ident r) we Wd)
        else
          let extra = (if first_in_shelf then 0 else d) in
          if x + extra + we \<le> Wd then
            let x1 = x + (if first_in_shelf then 0 else d) in
            nfdh_loop Wd d allow items
              (pls @ [\<lparr>rect_id = rect_ident r, pl_x = x1, pl_y = shelf_y,
                        w_eff = we, h_eff = he, rotated = rot\<rparr>])
              (x1 + we) shelf_y (max shelf_h he) False
          else
            let shelf_y1 = shelf_y + (shelf_h + (if shelf_h > 0 then d else 0)) in
            nfdh_loop Wd d allow items
              (pls @ [\<lparr>rect_id = rect_ident r, pl_x = 0, pl_y = shelf_y1,
                        w_eff = we, h_eff = he, rotated = rot\<rparr>])
              (0 + we) shelf_y1 he False)"

definition nfdh :: "HeuristicSolver \<Rightarrow> error + Solution" where
  "nfdh hs =
     (case nfdh_loop (strip_W (hs_instance hs)) (kerf_delta (hs_instance hs)) (allow_rotation hs)
             (nfdh_items (hs_instance hs) (allow_rotation hs)) [] 0 0 0 True of
        Inl e \<Rightarrow> Inl e
      | Inr (pls, shelf_y, shelf_h) \<Rightarrow>
          Inr \<lparr>sol_H = shelf_y + shelf_h, placements = pls,
               sol_method = ''Heuristic-NFDH'', optimality = Some ''feasible''\<rparr>)"

subsection \<open>Skyline policy\<close>

text \<open>A skyline segment is the tuple \<open>(x_start, width, height)\<close>.\<close>

type_synonym segment = "int \<times> int \<times> int"

definition skyline_key :: "bool \<Rightarrow> Rectangle \<Rightarrow> int" where
  "skyline_key allow r = (if allow then max (rect_h r) (rect_w r) else rect_h r)"

definition skyline_rects :: "Instance \<Rightarrow> bool \<Rightarrow> Rectangle list" where
  "skyline_rects inst allow = sort_key (\<lambda>r. - skyline_key allow r) (rectangles inst)"

text \<open>\<open>find_position\<close>: the scan over the segments, \<open>i\<close> the running index.\<close>

fun find_position_loop ::
  "segment list \<Rightarrow> nat \<Rightarrow> int \<Rightarrow> (int \<times> int \<times> nat) option \<Rightarrow> (int \<times> int \<times> nat) option" where
  "find_position_loop [] i we best = best"
| "find_position_loop ((xs, width, y) # rest) i we best =
     (if width < we then find_position_loop rest (Suc i) we best
      else
        let cand = (xs, y, i) in
        (case best of
           None \<Rightarrow> find_position_loop rest (Suc i) we (Some cand)
         | Some (bx, by, bi) \<Rightarrow>
             if y < by \<or> (y = by \<and> xs < bx)
             then find_position_loop rest (Suc i) we (Some cand)
             else find_position_loop rest (Suc i) we best))"

definition find_position :: "segment list \<Rightarrow> int \<Rightarrow> int \<Rightarrow> (int \<times> int \<times> nat) option" where
  "find_position skyline we he = find_position_loop skyline 0 we None"

text \<open>\<open>update_skyline\<close>: the \<open>while\<close> loop that cuts the covered part out of the profile.\<close>

fun cut_loop :: "int \<Rightarrow> int \<Rightarrow> segment list \<Rightarrow> segment list \<Rightarrow> segment list" where
  "cut_loop x x_end [] updated = updated"
| "cut_loop x x_end ((xs, width, sy) # rest) updated =
     (let xe = xs + width in
      if xe \<le> x \<or> xs \<ge> x_end then cut_loop x x_end rest (updated @ [(xs, width, sy)])
      else
        let u1 = (if xs < x then updated @ [(xs, x - xs, sy)] else updated);
            u2 = (if xe > x_end then u1 @ [(x_end, xe - x_end, sy)] else u1)
        in cut_loop x x_end rest u2)"

text \<open>The merging pass; \<open>merged\<close> is the list built so far.\<close>

fun merge_loop :: "segment list \<Rightarrow> segment list \<Rightarrow> segment list" where
  "merge_loop [] merged = merged"
| "merge_loop (seg # rest) merged =
     (if merged = [] then merge_loop rest (merged @ [seg])
      else
        (case (last merged, seg) of ((px, pw, py), (sx, sw, sy)) \<Rightarrow>
           if py = sy \<and> px + pw = sx
           then merge_loop rest (butlast merged @ [(px, pw + sw, py)])
           else merge_loop rest (merged @ [seg])))"

definition update_skyline :: "segment list \<Rightarrow> int \<Rightarrow> int \<Rightarrow> int \<Rightarrow> int \<Rightarrow> segment list" where
  "update_skyline skyline x we y he =
     (let x_end = x + we;
          new_seg = (x, we, y + he);
          updated = cut_loop x x_end skyline [] @ [new_seg]
      in merge_loop (sort_key fst updated) [])"

text \<open>One iteration of the placement loop, and the loop itself.\<close>

definition skyline_step ::
  "int \<Rightarrow> bool \<Rightarrow> Rectangle \<Rightarrow> segment list \<Rightarrow> error + (Placement \<times> segment list)" where
  "skyline_step Wd allow r skyline =
     (case orient r allow True of (we, he, rot) \<Rightarrow>
        if we > Wd then Inl (GeometryError (rect_ident r) we Wd)
        else
          (case (case find_position skyline we he of
                   None \<Rightarrow> map_sum id (\<lambda>m. (0, m)) (py_max (map (\<lambda>s. snd (snd s)) skyline))
                 | Some (px, py, _) \<Rightarrow> Inr (px, py)) of
             Inl e \<Rightarrow> Inl e
           | Inr (x, y) \<Rightarrow>
               Inr (\<lparr>rect_id = rect_ident r, pl_x = x, pl_y = y,
                     w_eff = we, h_eff = he, rotated = rot\<rparr>,
                    update_skyline skyline x we y he)))"

fun skyline_loop ::
  "int \<Rightarrow> bool \<Rightarrow> Rectangle list \<Rightarrow> segment list \<Rightarrow> Placement list
     \<Rightarrow> error + (Placement list \<times> segment list)" where
  "skyline_loop Wd allow [] skyline pls = Inr (pls, skyline)"
| "skyline_loop Wd allow (r # rs) skyline pls =
     (case skyline_step Wd allow r skyline of
        Inl e \<Rightarrow> Inl e
      | Inr (p, skyline1) \<Rightarrow> skyline_loop Wd allow rs skyline1 (pls @ [p]))"

definition skyline_H :: "Placement list \<Rightarrow> int" where
  "skyline_H pls =
     (case py_max (map (\<lambda>p. pl_y p + h_eff p) pls) of Inl _ \<Rightarrow> 0 | Inr m \<Rightarrow> m)"

definition skyline :: "HeuristicSolver \<Rightarrow> error + Solution" where
  "skyline hs =
     (if guillotine hs then nfdh hs
      else
        (case skyline_loop (strip_W (hs_instance hs)) (allow_rotation hs)
                (skyline_rects (hs_instance hs) (allow_rotation hs))
                [(0, strip_W (hs_instance hs), 0)] [] of
           Inl e \<Rightarrow> Inl e
         | Inr (pls, _) \<Rightarrow>
             Inr \<lparr>sol_H = skyline_H pls, placements = pls,
                  sol_method = ''Heuristic-Skyline'', optimality = Some ''feasible''\<rparr>))"

definition solve :: "HeuristicSolver \<Rightarrow> error + Solution" where
  "solve hs =
     (case hpolicy hs of
        NFDH \<Rightarrow> nfdh hs
      | Skyline \<Rightarrow> skyline hs
      | OtherPolicy \<Rightarrow> Inl UnknownPolicy)"

section \<open>Metaheuristic decoder (spp/solvers/metaheuristics.py)\<close>

datatype strategy = GA | SA | Tabu | OtherStrategy

fun strategy_name :: "strategy \<Rightarrow> string" where
  "strategy_name GA = ''GA''"
| "strategy_name SA = ''SA''"
| "strategy_name Tabu = ''Tabu''"
| "strategy_name OtherStrategy = ''Other''"

record MetaheuristicSolver =
  mh_instance :: Instance
  mh_allow_rotation :: bool
  mh_strategy :: strategy

text \<open>
  \<open>id_to_rect = {r.id: r for r in rectangles}\<close>: a later rectangle with the same id
  replaces an earlier one, so the association list is read from the back.
\<close>

definition id_to_rect :: "Instance \<Rightarrow> int \<rightharpoonup> Rectangle" where
  "id_to_rect inst = map_of (rev (map (\<lambda>r. (rect_ident r, r)) (rectangles inst)))"

text \<open>
  The loop \<open>for rid, bit in zip(perm, orient_bits)\<close>; a missing id raises \<open>KeyError\<close>.
  The loop body never reads the bit (\<open>obit\<close> below).
\<close>

fun decode_rects ::
  "(int \<rightharpoonup> Rectangle) \<Rightarrow> bool \<Rightarrow> (int \<times> int) list \<Rightarrow> Rectangle list \<Rightarrow> error + Rectangle list" where
  "decode_rects m allow [] rects = Inr rects"
| "decode_rects m allow ((rid, obit) # rest) rects =
     (case m rid of
        None \<Rightarrow> Inl (KeyError rid)
      | Some r \<Rightarrow>
          decode_rects m allow rest
            (rects @ [\<lparr>rect_ident = rect_ident r, rect_w = rect_w r, rect_h = rect_h r,
                       rotatable = (rotatable r \<and> allow)\<rparr>]))"

definition decode :: "MetaheuristicSolver \<Rightarrow> int list \<Rightarrow> int list \<Rightarrow> error + Solution" where
  "decode ms perm orient_bits =
     (case decode_rects (id_to_rect (mh_instance ms)) (mh_allow_rotation ms)
             (zip perm orient_bits) [] of
        Inl e \<Rightarrow> Inl e
      | Inr rects \<Rightarrow>
          let tmp_inst = \<lparr>strip_W = strip_W (mh_instance ms), rectangles = rects,
                          kerf_delta = kerf_delta (mh_instance ms),
                          forbidden_zones = forbidden_zones (mh_instance ms)\<rparr>;
              hs = \<lparr>hs_instance = tmp_inst, allow_rotation = mh_allow_rotation ms,
                    hpolicy = Skyline, guillotine = False\<rparr>
          in (case solve hs of
                Inl e \<Rightarrow> Inl e
              | Inr sol \<Rightarrow>
                  Inr (sol\<lparr>sol_method := ''Meta-'' @ strategy_name (mh_strategy ms)
                                        @ ''-SkylineDecode''\<rparr>)))"

section \<open>Level model (spp/solvers/level_milp.py)\<close>

record LevelMilpSolver =
  lm_instance :: Instance
  lm_allow_rotation :: bool
  max_levels :: "int option"

text \<open>\<open>L = self.max_levels or n\<close>: \<open>None\<close> and \<open>0\<close> are both falsy.\<close>

definition level_L :: "LevelMilpSolver \<Rightarrow> int" where
  "level_L lms =
     (let n = int (length (rectangles (lm_instance lms))) in
      case max_levels lms of
        None \<Rightarrow> n
      | Some m \<Rightarrow> if m = 0 then n else m)"

text \<open>
  The default the specification words describe: half the item count, rounded up, plus
  one. It is stated here only to be compared with \<^const>\<open>level_L\<close>.
\<close>

definition spec_default_levels :: "nat \<Rightarrow> int" where
  "spec_default_levels n = \<lceil>real n / 2\<rceil> + 1"

text \<open>
  The mixed-integer backend is external. What it hands back is a value for every
  variable; \<open>pulp.value(v) or 0\<close> is read as a real number (\<open>None\<close> counts as 0), and the
  status string is whatever the backend reports.
\<close>

record level_values =
  val_u :: "nat \<Rightarrow> real"
  val_s :: "nat \<Rightarrow> real"
  val_zH :: "int \<Rightarrow> nat \<Rightarrow> real"
  val_zV :: "int \<Rightarrow> nat \<Rightarrow> real"
  val_H :: real
  val_status :: string

text \<open>Python's \<open>int()\<close> of a float truncates towards zero.\<close>

definition py_int :: "real \<Rightarrow> int" where
  "py_int v = (if v \<ge> 0 then \<lfloor>v\<rfloor> else \<lceil>v\<rceil>)"

text \<open>\<open>next(r for r in rectangles if r.id == rid)\<close>: the first rectangle with that id.\<close>

definition first_rect :: "Rectangle list \<Rightarrow> int \<Rightarrow> Rectangle option" where
  "first_rect rects rid = find (\<lambda>r. rect_ident r = rid) rects"

text \<open>
  \<open>eff_h\<close>, the sort key of the items of one level. Its argument is always one of the
  instance's ids, so the search succeeds; the other branch is never taken.
\<close>

definition eff_h :: "Rectangle list \<Rightarrow> bool \<Rightarrow> (int \<Rightarrow> real) \<Rightarrow> int \<Rightarrow> int" where
  "eff_h rects allow zv rid =
     (case first_rect rects rid of
        None \<Rightarrow> 0
      | Some rect \<Rightarrow> if allow \<and> zv rid > 1 / 2 then rect_w rect else rect_h rect)"

text \<open>The items of one level, left to right.\<close>

fun level_place ::
  "Rectangle list \<Rightarrow> bool \<Rightarrow> int \<Rightarrow> (int \<Rightarrow> real) \<Rightarrow> int \<Rightarrow> int list \<Rightarrow> int \<Rightarrow> bool \<Rightarrow> Placement list
     \<Rightarrow> error + Placement list" where
  "level_place rects allow d zv y [] x first pls = Inr pls"
| "level_place rects allow d zv y (rid # rest) x first pls =
     (case first_rect rects rid of
        None \<Rightarrow> Inl StopIteration
      | Some rect \<Rightarrow>
          let rot = (allow \<and> zv rid > 1 / 2);
              wv = (if rot then rect_h rect else rect_w rect);
              hv = (if rot then rect_w rect else rect_h rect);
              x1 = (if \<not> first then x + d else x)
          in level_place rects allow d zv y rest (x1 + wv) False
               (pls @ [\<lparr>rect_id = rid, pl_x = x1, pl_y = y,
                         w_eff = wv, h_eff = hv, rotated = rot\<rparr>]))"

text \<open>The walk over the levels \<open>range(L)\<close>.\<close>

fun level_levels ::
  "Rectangle list \<Rightarrow> bool \<Rightarrow> int \<Rightarrow> level_values \<Rightarrow> nat list \<Rightarrow> int \<Rightarrow> Placement list
     \<Rightarrow> error + Placement list" where
  "level_levels rects allow d vals [] y pls = Inr pls"
| "level_levels rects allow d vals (ell # ells) y pls =
     (let s_val = py_int (val_s vals ell) in
      if s_val \<le> 0 then level_levels rects allow d vals ells y pls
      else
        let ids = map rect_ident rects;
            zv = (\<lambda>rid. val_zV vals rid ell);
            ids_on = filter (\<lambda>rid. val_zH vals rid ell > 1 / 2 \<or> (allow \<and> zv rid > 1 / 2)) ids;
            sorted_on = sort_key (\<lambda>rid. - eff_h rects allow zv rid) ids_on
        in (case level_place rects allow d zv y sorted_on 0 True pls of
              Inl e \<Rightarrow> Inl e
            | Inr pls1 \<Rightarrow>
                level_levels rects allow d vals ells
                  (y + (s_val + (if s_val > 0 then d else 0))) pls1))"

text \<open>
  \<open>LevelMilpSolver.solve\<close> around the backend call: the bounds are computed while the
  model is built (and may raise), the backend returns \<open>vals\<close>, the placements are rebuilt.
\<close>

definition level_solve :: "bool \<Rightarrow> LevelMilpSolver \<Rightarrow> level_values \<Rightarrow> error + Solution" where
  "level_solve pulp_available lms vals =
     (if \<not> pulp_available then Inl BackendUnavailable
      else
        (case area_lb (lm_instance lms) of
           Inl e \<Rightarrow> Inl e
         | Inr _ \<Rightarrow>
        (case maxh_lb (lm_instance lms) (lm_allow_rotation lms) of
           Inl e \<Rightarrow> Inl e
         | Inr _ \<Rightarrow>
        (case level_levels (rectangles (lm_instance lms)) (lm_allow_rotation lms)
                (kerf_delta (lm_instance lms)) vals [0..<nat (level_L lms)] 0 [] of
           Inl e \<Rightarrow> Inl e
         | Inr pls \<Rightarrow>
             Inr \<lparr>sol_H = (case py_max (map (\<lambda>p. pl_y p + h_eff p) pls) of
                              Inl _ \<Rightarrow> 0 | Inr m \<Rightarrow> m),
                  placements = pls, sol_method = ''MILP-ShelfLevel'',
                  optimality = Some (val_status vals)\<rparr>))))"

text \<open>
  The constraints the model hands to the backend, as a predicate on the returned
  values: variable domains, one level and orientation per item, the width of a level,
  the height of a level, non-increasing heights, the total height and its two bounds.
\<close>

definition is_binary :: "real \<Rightarrow> bool" where
  "is_binary v \<longleftrightarrow> v = 0 \<or> v = 1"

definition level_constraints :: "LevelMilpSolver \<Rightarrow> level_values \<Rightarrow> bool" where
  "level_constraints lms vals \<longleftrightarrow>
     (let inst = lm_instance lms; allow = lm_allow_rotation lms;
          rects = rectangles inst; ids = map rect_ident rects;
          L = nat (level_L lms);
          zH = val_zH vals;
          zV = (\<lambda>rid ell. if allow then val_zV vals rid ell else 0);
          wd = (\<lambda>rid. case first_rect rects rid of None \<Rightarrow> 0 | Some r \<Rightarrow> real_of_int (rect_w r));
          ht = (\<lambda>rid. case first_rect rects rid of None \<Rightarrow> 0 | Some r \<Rightarrow> real_of_int (rect_h r))
      in
        (\<forall>ell < L. is_binary (val_u vals ell) \<and> val_s vals ell \<in> \<int> \<and> 0 \<le> val_s vals ell) \<and>
        val_H vals \<in> \<int> \<and> 0 \<le> val_H vals \<and>
        (\<forall>rid \<in> set ids. \<forall>ell < L. is_binary (zH rid ell) \<and> is_binary (zV rid ell)) \<and>
        (\<forall>rid \<in> set ids. (\<Sum>ell \<leftarrow> [0..<L]. zH rid ell + zV rid ell) = 1) \<and>
        (\<forall>ell < L.
           (\<Sum>rid \<leftarrow> ids. wd rid * zH rid ell + ht rid * zV rid ell)
             + real_of_int (kerf_delta inst) * ((\<Sum>rid \<leftarrow> ids. zH rid ell + zV rid ell) - 1)
           \<le> real_of_int (strip_W inst) * val_u vals ell) \<and>
        (\<forall>ell < L. \<forall>rid \<in> set ids.
           val_s vals ell \<ge> ht rid * zH rid ell \<and>
           (allow \<longrightarrow> val_s vals ell \<ge> wd rid * val_zV vals rid ell)) \<and>
        (\<forall>ell. Suc ell < L \<longrightarrow> val_s vals ell \<ge> val_s vals (Suc ell)) \<and>
        val_H vals = (\<Sum>ell \<leftarrow> [0..<L]. val_s vals ell) \<and>
        (\<forall>a. area_lb inst = Inr a \<longrightarrow> val_H vals \<ge> real_of_int a) \<and>
        (\<forall>m. maxh_lb inst allow = Inr m \<longrightarrow> val_H vals \<ge> real_of_int m))"

section \<open>Coordinate model: warm start (spp/solvers/milp.py)\<close>

record MilpSolver =
  ml_instance :: Instance
  ml_allow_rotation :: bool
  warm_start :: bool
  guide_radius :: int

text \<open>Python list indexing: a negative index counts from the end, anything else raises.\<close>

definition py_index :: "'a list \<Rightarrow> int \<Rightarrow> error + 'a" where
  "py_index xs i =
     (if 0 \<le> i \<and> i < int (length xs) then Inr (xs ! nat i)
      else if - int (length xs) \<le> i \<and> i < 0 then Inr (xs ! nat (int (length xs) + i))
      else Inl IndexError)"

text \<open>The initial values \<open>setInitialValue\<close> stores on the variables \<open>x\<close>, \<open>y\<close> and \<open>r\<close>.\<close>

record initial_values =
  init_x :: "int \<rightharpoonup> int"
  init_y :: "int \<rightharpoonup> int"
  init_r :: "int \<rightharpoonup> int"

text \<open>
  \<open>by_id = {p.rect_id: p for p in hsol.placements}\<close> and the loop \<open>for rid in ids\<close> of
  the warm start. The \<open>try\<close> block guards only \<open>setInitialValue\<close>; the list access is in
  the condition of the \<open>if\<close>, outside it.
\<close>

definition by_id :: "Placement list \<Rightarrow> int \<rightharpoonup> Placement" where
  "by_id pls = map_of (rev (map (\<lambda>p. (rect_id p, p)) pls))"

fun warm_start_loop ::
  "Rectangle list \<Rightarrow> bool \<Rightarrow> (int \<rightharpoonup> Placement) \<Rightarrow> int list \<Rightarrow> initial_values
     \<Rightarrow> error + initial_values" where
  "warm_start_loop rects allow m [] iv = Inr iv"
| "warm_start_loop rects allow m (rid # ids) iv =
     (case m rid of
        None \<Rightarrow> warm_start_loop rects allow m ids iv
      | Some p \<Rightarrow>
          let iv1 = iv\<lparr>init_x := (init_x iv)(rid \<mapsto> pl_x p),
                       init_y := (init_y iv)(rid \<mapsto> pl_y p)\<rparr>
          in if allow then
               (case py_index rects (rid - 1) of
                  Inl e \<Rightarrow> Inl e
                | Inr rc \<Rightarrow>
                    if rotatable rc
                    then warm_start_loop rects allow m ids
                           (iv1\<lparr>init_r := (init_r iv1)(rid \<mapsto> (if rotated p then 1 else 0))\<rparr>)
                    else warm_start_loop rects allow m ids iv1)
             else warm_start_loop rects allow m ids iv1)"

text \<open>
  For comparison only: the same loop with the rectangle found by its id, as the rest of
  the solver finds it (\<open>next(r for r in rectangles if r.id == rid)\<close>).
\<close>

fun warm_start_by_id ::
  "Rectangle list \<Rightarrow> bool \<Rightarrow> (int \<rightharpoonup> Placement) \<Rightarrow> int list \<Rightarrow> initial_values
     \<Rightarrow> error + initial_values" where
  "warm_start_by_id rects allow m [] iv = Inr iv"
| "warm_start_by_id rects allow m (rid # ids) iv =
     (case m rid of
        None \<Rightarrow> warm_start_by_id rects allow m ids iv
      | Some p \<Rightarrow>
          let iv1 = iv\<lparr>init_x := (init_x iv)(rid \<mapsto> pl_x p),
                       init_y := (init_y iv)(rid \<mapsto> pl_y p)\<rparr>
          in if allow then
               (case first_rect rects rid of
                  None \<Rightarrow> Inl StopIteration
                | Some rc \<Rightarrow>
                    if rotatable rc
                    then warm_start_by_id rects allow m ids
                           (iv1\<lparr>init_r := (init_r iv1)(rid \<mapsto> (if rotated p then 1 else 0))\<rparr>)
                    else warm_start_by_id rects allow m ids iv1)
             else warm_start_by_id rects allow m ids iv1)"

text \<open>
  \<open>MilpSolver.solve\<close> up to the backend call: the Skyline seed, the two bounds, the
  model (whose construction raises nothing once the bounds exist) and the warm start.
\<close>

definition milp_prepare :: "bool \<Rightarrow> MilpSolver \<Rightarrow> error + initial_values" where
  "milp_prepare pulp_available ms =
     (if \<not> pulp_available then Inl BackendUnavailable
      else
        (case solve \<lparr>hs_instance = ml_instance ms, allow_rotation = ml_allow_rotation ms,
                     hpolicy = Skyline, guillotine = False\<rparr> of
           Inl e \<Rightarrow> Inl e
         | Inr hsol \<Rightarrow>
        (case maxh_lb (ml_instance ms) (ml_allow_rotation ms) of
           Inl e \<Rightarrow> Inl e
         | Inr _ \<Rightarrow>
        (case area_lb (ml_instance ms) of
           Inl e \<Rightarrow> Inl e
         | Inr _ \<Rightarrow>
             if warm_start ms
             then warm_start_loop (rectangles (ml_instance ms)) (ml_allow_rotation ms)
                    (by_id (placements hsol)) (map rect_ident (rectangles (ml_instance ms)))
                    \<lparr>init_x = Map.empty, init_y = Map.empty, init_r = Map.empty\<rparr>
             else Inr \<lparr>init_x = Map.empty, init_y = Map.empty, init_r = Map.empty\<rparr>))))"

section \<open>Predicates used in the statements\<close>

text \<open>
  The data model's conditions on an instance: a positive strip width, positive
  rectangle dimensions and a non-negative kerf.
\<close>

definition wf_instance :: "Instance \<Rightarrow> bool" where
  "wf_instance inst \<longleftrightarrow>
     0 < strip_W inst \<and> 0 \<le> kerf_delta inst \<and>
     list_all (\<lambda>r. 0 < rect_w r \<and> 0 < rect_h r) (rectangles inst)"

text \<open>
  The width the orientation rule gives a rectangle, and the minimal width over its
  allowed orientations (the latter is the specification's wording).
\<close>

definition oriented_width :: "bool \<Rightarrow> Rectangle \<Rightarrow> int" where
  "oriented_width allow r =
     (if allow \<and> rotatable r then max (rect_w r) (rect_h r) else rect_w r)"

definition min_achievable_width :: "bool \<Rightarrow> Rectangle \<Rightarrow> int" where
  "min_achievable_width allow r =
     (if \<not> rotatable r \<or> \<not> allow then rect_w r else min (rect_w r) (rect_h r))"

text \<open>
  The profile invariant. The segments form a chain from \<open>a\<close> to \<open>b\<close>: each has positive
  width and starts where the one before it ends. A profile is in order when it is not
  empty, is sorted by \<open>x_start\<close>, its segments do not overlap, they form a chain from 0 to
  the strip width (so their widths add up to it), and no two neighbours have the same
  height.
\<close>

fun chain :: "int \<Rightarrow> segment list \<Rightarrow> int \<Rightarrow> bool" where
  "chain a [] b \<longleftrightarrow> a = b"
| "chain a ((xs, width, sy) # rest) b \<longleftrightarrow> xs = a \<and> 0 < width \<and> chain (a + width) rest b"

definition seg_height :: "segment \<Rightarrow> int" where
  "seg_height s = snd (snd s)"

definition seg_width :: "segment \<Rightarrow> int" where
  "seg_width s = fst (snd s)"

definition skyline_inv :: "int \<Rightarrow> segment list \<Rightarrow> bool" where
  "skyline_inv Wd sky \<longleftrightarrow>
     sky \<noteq> [] \<and>
     sorted (map fst sky) \<and>
     sorted_wrt (\<lambda>s t. fst s + seg_width s \<le> fst t) sky \<and>
     chain 0 sky Wd \<and>
     sum_list (map seg_width sky) = Wd \<and>
     distinct_adj (map seg_height sky)"


text \<open>
  The unit cells of the grid that a placement covers. Placements that are separated cover
  disjoint sets of cells, which bounds the total area packed into a box.
\<close>

definition cells :: "Placement \<Rightarrow> (int \<times> int) set" where
  "cells p = {pl_x p ..< pl_x p + w_eff p} \<times> {pl_y p ..< pl_y p + h_eff p}"

section \<open>Concrete instances\<close>

definition rect :: "int \<Rightarrow> int \<Rightarrow> int \<Rightarrow> bool \<Rightarrow> Rectangle" where
  "rect i wd ht rot = \<lparr>rect_ident = i, rect_w = wd, rect_h = ht, rotatable = rot\<rparr>"

definition heuristic :: "policy \<Rightarrow> bool \<Rightarrow> Instance \<Rightarrow> HeuristicSolver" where
  "heuristic pol allow inst =
     \<lparr>hs_instance = inst, allow_rotation = allow, hpolicy = pol, guillotine = False\<rparr>"

text \<open>Scenario E: kerf 2, two rectangles of 4 by 3, strip width 10.\<close>

definition scenario_E :: Instance where
  "scenario_E = \<lparr>strip_W = 10, rectangles = [rect 1 4 3 True, rect 2 4 3 True],
                  kerf_delta = 2, forbidden_zones = []\<rparr>"

text \<open>A rotatable rectangle of 3 by 12 in a strip of width 10.\<close>

definition tall_item :: Instance where
  "tall_item = \<lparr>strip_W = 10, rectangles = [rect 1 3 12 True],
                 kerf_delta = 0, forbidden_zones = []\<rparr>"

text \<open>One rotatable rectangle of 4 by 3 in a strip of width 10.\<close>

definition one_item :: Instance where
  "one_item = \<lparr>strip_W = 10, rectangles = [rect 1 4 3 True],
                kerf_delta = 0, forbidden_zones = []\<rparr>"

definition four_items :: Instance where
  "four_items = \<lparr>strip_W = 10,
                  rectangles = [rect 1 4 3 True, rect 2 4 3 True, rect 3 2 6 True, rect 4 5 5 True],
                  kerf_delta = 0, forbidden_zones = []\<rparr>"

definition no_items :: Instance where
  "no_items = \<lparr>strip_W = 10, rectangles = [], kerf_delta = 0, forbidden_zones = []\<rparr>"

text \<open>Two rectangles with the ids 1 and 5, for the coordinate model with warm start.\<close>

definition gap_ids :: Instance where
  "gap_ids = \<lparr>strip_W = 10, rectangles = [rect 1 4 3 True, rect 5 4 3 True],
               kerf_delta = 0, forbidden_zones = []\<rparr>"

definition gap_solver :: MilpSolver where
  "gap_solver = \<lparr>ml_instance = gap_ids, ml_allow_rotation = True,
                  warm_start = True, guide_radius = 2\<rparr>"

text \<open>
  One rectangle of 5 by 2 that must not be rotated, in a strip of width 3; the level
  model with rotation allowed, and values for its variables with the rectangle rotated
  on level 0.
\<close>

definition locked_item :: Instance where
  "locked_item = \<lparr>strip_W = 3, rectangles = [rect 1 5 2 False],
                   kerf_delta = 0, forbidden_zones = []\<rparr>"

definition locked_solver :: LevelMilpSolver where
  "locked_solver = \<lparr>lm_instance = locked_item, lm_allow_rotation = True, max_levels = None\<rparr>"

definition locked_values :: level_values where
  "locked_values =
     \<lparr>val_u = (\<lambda>ell. 1), val_s = (\<lambda>ell. if ell = 0 then 5 else 0),
      val_zH = (\<lambda>rid ell. 0),
      val_zV = (\<lambda>rid ell. if rid = 1 \<and> ell = 0 then 1 else 0),
      val_H = 5, val_status = ''Optimal''\<rparr>"

text \<open>
  Statements about the shelf policy. Two neighbours in the placement list that stand on
  the same shelf (at the same height \<open>y\<close>) are exactly one kerf apart; the top of the last
  shelf is its \<open>y\<close> plus the largest height standing on it.
\<close>

definition kerf_gaps :: "int \<Rightarrow> Placement list \<Rightarrow> bool" where
  "kerf_gaps d pls \<longleftrightarrow>
     successively (\<lambda>p q. pl_y q = pl_y p \<longrightarrow> pl_x q = pl_x p + w_eff p + d) pls"

definition last_shelf_top :: "Placement list \<Rightarrow> int" where
  "last_shelf_top pls =
     pl_y (last pls) + Max (h_eff ` {p \<in> set pls. pl_y p = pl_y (last pls)})"

text \<open>
  The loop invariants of the shelf policy. The geometric one: every placement lies in
  the strip, stands either on the running shelf left of \<open>x\<close> and below its height, or
  entirely below the running shelf; and no two placements overlap. The other one ties the
  loop variables to the last placement and to the items of the running shelf.
\<close>

definition nfdh_geom :: "int \<Rightarrow> Placement list \<Rightarrow> int \<Rightarrow> int \<Rightarrow> int \<Rightarrow> bool" where
  "nfdh_geom Wd pls x shelf_y shelf_h \<longleftrightarrow>
     0 \<le> x \<and> 0 \<le> shelf_y \<and> 0 \<le> shelf_h \<and>
     (\<forall>p \<in> set pls.
        0 \<le> pl_x p \<and> 0 \<le> pl_y p \<and> pl_x p + w_eff p \<le> Wd \<and>
        ((pl_y p = shelf_y \<and> pl_x p + w_eff p \<le> x \<and> h_eff p \<le> shelf_h) \<or>
         pl_y p + h_eff p \<le> shelf_y)) \<and>
     all_pairs_separated pls"

definition nfdh_shelf :: "int \<Rightarrow> Placement list \<Rightarrow> int \<Rightarrow> int \<Rightarrow> int \<Rightarrow> bool \<Rightarrow> bool" where
  "nfdh_shelf d pls x shelf_y shelf_h first_in_shelf \<longleftrightarrow>
     (first_in_shelf \<longrightarrow> pls = [] \<and> x = 0 \<and> shelf_h = 0) \<and>
     (\<not> first_in_shelf \<longrightarrow>
        pls \<noteq> [] \<and> pl_y (last pls) = shelf_y \<and>
        pl_x (last pls) + w_eff (last pls) = x \<and> 0 < shelf_h \<and>
        (\<exists>p \<in> set pls. pl_y p = shelf_y \<and> h_eff p = shelf_h)) \<and>
     (\<forall>p \<in> set pls. pl_y p \<le> shelf_y \<and> (pl_y p = shelf_y \<longrightarrow> h_eff p \<le> shelf_h)) \<and>
     kerf_gaps d pls"

text \<open>
  What one segment contributes to \<open>updated\<close> in \<open>update_skyline\<close>: itself when it lies
  outside the covered interval, otherwise its remainders to the left and to the right.
\<close>

definition seg_pieces :: "int \<Rightarrow> int \<Rightarrow> segment \<Rightarrow> segment list" where
  "seg_pieces x x_end s =
     (case s of (xs, width, sy) \<Rightarrow>
        if xs + width \<le> x \<or> xs \<ge> x_end then [s]
        else (if xs < x then [(xs, x - xs, sy)] else []) @
             (if xs + width > x_end then [(x_end, xs + width - x_end, sy)] else []))"

text \<open>
  The loop invariant of the Skyline policy that carries feasibility: the profile lies on
  or above every placement it overlaps horizontally, the placements lie in the strip and
  do not overlap each other.
\<close>

definition sky_dominates :: "Placement list \<Rightarrow> segment list \<Rightarrow> bool" where
  "sky_dominates pls sky \<longleftrightarrow>
     (\<forall>p \<in> set pls. \<forall>s \<in> set sky.
        fst s < pl_x p + w_eff p \<and> pl_x p < fst s + seg_width s
          \<longrightarrow> pl_y p + h_eff p \<le> seg_height s)"

definition skyline_state_ok :: "int \<Rightarrow> segment list \<Rightarrow> Placement list \<Rightarrow> bool" where
  "skyline_state_ok Wd sky pls \<longleftrightarrow>
     chain 0 sky Wd \<and> sky \<noteq> [] \<and>
     (\<forall>s \<in> set sky. 0 \<le> seg_height s) \<and>
     (\<forall>p \<in> set pls. 0 \<le> pl_x p \<and> 0 \<le> pl_y p \<and> 0 < w_eff p \<and> 0 \<le> h_eff p \<and>
                      pl_x p + w_eff p \<le> Wd) \<and>
     sky_dominates pls sky \<and>
     all_pairs_separated pls"


text \<open>
  Further instances for the coordinate model with warm start: the ids 1 and 0 in this
  order, one rectangle with the id 5 that is wider than the strip, one with the id 5 and
  the area \<open>2^1024\<close>, and the ids 1 and 2.
\<close>

definition swapped_ids :: Instance where
  "swapped_ids = \<lparr>strip_W = 10, rectangles = [rect 1 4 3 True, rect 0 4 3 False],
                   kerf_delta = 0, forbidden_zones = []\<rparr>"

definition swapped_solver :: MilpSolver where
  "swapped_solver = \<lparr>ml_instance = swapped_ids, ml_allow_rotation = True,
                      warm_start = True, guide_radius = 2\<rparr>"

definition wide_id5 :: Instance where
  "wide_id5 = \<lparr>strip_W = 10, rectangles = [rect 5 12 3 False],
                kerf_delta = 0, forbidden_zones = []\<rparr>"

definition wide_solver :: MilpSolver where
  "wide_solver = \<lparr>ml_instance = wide_id5, ml_allow_rotation = True,
                   warm_start = True, guide_radius = 2\<rparr>"

definition huge_id5 :: Instance where
  "huge_id5 = \<lparr>strip_W = 1, rectangles = [rect 5 1 (2 ^ 1024) False],
                kerf_delta = 0, forbidden_zones = []\<rparr>"

definition huge_solver :: MilpSolver where
  "huge_solver = \<lparr>ml_instance = huge_id5, ml_allow_rotation = True,
                   warm_start = True, guide_radius = 2\<rparr>"

definition ordered_ids :: Instance where
  "ordered_ids = \<lparr>strip_W = 10, rectangles = [rect 1 4 3 True, rect 2 4 3 False],
                   kerf_delta = 0, forbidden_zones = []\<rparr>"

definition ordered_solver :: MilpSolver where
  "ordered_solver = \<lparr>ml_instance = ordered_ids, ml_allow_rotation = True,
                      warm_start = True, guide_radius = 2\<rparr>"


definition big_item :: Instance where
  "big_item = \<lparr>strip_W = 1, rectangles = [rect 1 1 (2 ^ 53 + 3) False],
                kerf_delta = 0, forbidden_zones = []\<rparr>"

section \<open>Verification\<close>

subsection \<open>The area bound: Python's true division\<close>

text \<open>
  The double nearest to a quotient \<open>q\<close> of normal size differs from it by at most
  \<open>q / 2^53\<close>; a quotient between 1 and \<open>2^1000\<close> does not overflow. This fixes the
  value of \<open>area_lb\<close> whenever the quotient is not too close to an integer from below.
\<close>

lemma round_half_even_near: "\<bar>real_of_int (round_half_even r) - r\<bar> \<le> 1 / 2"
  unfolding round_half_even_def Let_def by (auto; linarith)

lemma to_double_abs:
  assumes "q \<noteq> 0"
  shows "\<bar>to_double q - q\<bar> \<le> 2 powr (real_of_int (float_exponent q) - 53)"
proof -
  let ?e = "real_of_int (float_exponent q)"
  let ?u = "2 powr (?e - 52)"
  have u: "0 < ?u" by simp
  have "to_double q - q = ?u * (real_of_int (round_half_even (q / ?u)) - q / ?u)"
    using assms u by (simp add: to_double_def Let_def algebra_simps)
  then have "\<bar>to_double q - q\<bar> = ?u * \<bar>real_of_int (round_half_even (q / ?u)) - q / ?u\<bar>"
    by (simp add: abs_mult)
  also have "\<dots> \<le> ?u * (1 / 2)"
    using round_half_even_near[of "q / ?u"] u by (intro mult_left_mono) auto
  also have "\<dots> = 2 powr (?e - 53)"
  proof -
    have "?e - 52 = (?e - 53) + 1" by simp
    then have "2 powr (?e - 52) = 2 powr (?e - 53) * 2 powr 1" by (simp only: powr_add)
    then show ?thesis by simp
  qed
  finally show ?thesis .
qed

lemma to_double_rel:
  assumes "2 powr (- 1022) \<le> q"
  shows "\<bar>to_double q - q\<bar> \<le> q * 2 powr (- 53)"
proof -
  have pos: "0 < q" using assms by (rule less_le_trans[rotated]) simp
  have "- 1022 \<le> log 2 q" using assms pos by (simp add: le_log_iff)
  then have "- 1022 \<le> \<lfloor>log 2 q\<rfloor>" by (simp add: le_floor_iff)
  then have e: "float_exponent q = \<lfloor>log 2 q\<rfloor>" using pos by (simp add: float_exponent_def)
  have "2 powr real_of_int \<lfloor>log 2 q\<rfloor> \<le> 2 powr (log 2 q)"
    by (intro powr_mono) auto
  then have le: "2 powr real_of_int \<lfloor>log 2 q\<rfloor> \<le> q" using pos by simp
  have "\<bar>to_double q - q\<bar> \<le> 2 powr (real_of_int \<lfloor>log 2 q\<rfloor> - 53)"
    using to_double_abs[of q] pos e by simp
  also have "\<dots> = 2 powr real_of_int \<lfloor>log 2 q\<rfloor> * 2 powr (- 53)"
    by (simp add: powr_add[symmetric])
  also have "\<dots> \<le> q * 2 powr (- 53)"
    using le by (intro mult_right_mono) auto
  finally show ?thesis .
qed

lemma powr_minus_53: "(2::real) powr (- 53) = 1 / 2 ^ 53"
proof -
  have "(2::real) powr (- 53) = inverse (2 powr 53)" by (rule powr_minus)
  also have "(2::real) powr 53 = 2 ^ 53" by (rule powr_numeral) simp
  finally show ?thesis by (simp only: inverse_eq_divide)
qed

lemma powr_minus_1022_le: "(2::real) powr (- 1022) \<le> 1"
proof -
  have "(2::real) powr (- 1022) \<le> 2 powr 0" by (rule powr_mono) simp_all
  then show ?thesis by simp
qed

lemma double_range: "2 ^ 1000 * (2::real) < 2 powr 1024"
proof -
  have "(2::real) ^ 1000 * 2 = 2 ^ 1001" by simp
  also have "\<dots> < 2 ^ 1024" by (rule power_strict_increasing) simp_all
  also have "(2::real) ^ 1024 = 2 powr 1024" by (rule powr_numeral[symmetric]) simp
  finally show ?thesis .
qed

lemma true_div_near:
  assumes "b \<noteq> 0" and q: "q = real_of_int a / real_of_int b" and "1 \<le> q" "q \<le> 2 ^ 1000"
  shows "\<exists>f. true_div a b = Inr f \<and> q * (1 - 1 / 2 ^ 53) \<le> f \<and> f \<le> q * (1 + 1 / 2 ^ 53)"
proof -
  define eps where "eps = 1 / (2::real) ^ 53"
  define top where "top = (2::real) powr 1024"
  have eps: "0 \<le> eps" "eps \<le> 1" by (simp_all add: eps_def)
  from powr_minus_1022_le assms(3) have lo: "2 powr (- 1022) \<le> q" by linarith
  from to_double_rel[OF lo] have "\<bar>to_double q - q\<bar> \<le> q * eps"
    by (simp only: powr_minus_53 eps_def)
  then have b1: "q * (1 - eps) \<le> to_double q" and b2: "to_double q \<le> q * (1 + eps)"
    by (simp_all add: algebra_simps abs_le_iff)
  have "q * (1 + eps) \<le> q * 2" using eps assms(3) by (intro mult_left_mono) auto
  also have "\<dots> \<le> 2 ^ 1000 * 2" using assms(4) by (intro mult_right_mono) auto
  also have "\<dots> < top" unfolding top_def by (rule double_range)
  finally have "q * (1 + eps) < top" .
  with b2 have up: "to_double q < top" by linarith
  have "0 \<le> q * (1 - eps)" using assms(3) eps by (intro mult_nonneg_nonneg) auto
  with b1 have "0 \<le> to_double q" by linarith
  with up have "\<not> top \<le> \<bar>to_double q\<bar>" by linarith
  then have "\<not> 2 powr 1024 \<le> \<bar>to_double (real_of_int a / real_of_int b)\<bar>"
    unfolding top_def q .
  with assms(1) have "true_div a b = Inr (to_double (real_of_int a / real_of_int b))"
    unfolding true_div_def Let_def by (simp only: if_False simp_thms)
  with b1 b2 show ?thesis unfolding eps_def q by blast
qed

lemma area_lb_value:
  assumes "strip_W inst \<noteq> 0"
    and "q = real_of_int (sum_list (map area (rectangles inst))) / real_of_int (strip_W inst)"
    and "1 \<le> q" "q \<le> 2 ^ 1000"
    and "real_of_int k - 1 < q * (1 - 1 / 2 ^ 53)" "q * (1 + 1 / 2 ^ 53) \<le> real_of_int k"
  shows "area_lb inst = Inr k"
proof -
  from true_div_near[OF assms(1,2,3,4)] obtain f where
    f: "true_div (sum_list (map area (rectangles inst))) (strip_W inst) = Inr f"
       "q * (1 - 1 / 2 ^ 53) \<le> f" "f \<le> q * (1 + 1 / 2 ^ 53)"
    by blast
  from f(2,3) assms(5,6) have "real_of_int k - 1 < f" "f \<le> real_of_int k" by linarith+
  then have "\<lceil>f\<rceil> = k" by (simp add: ceiling_eq_iff)
  with f(1) show ?thesis by (simp add: area_lb_def Let_def)
qed

text \<open>A quotient of at least \<open>2^1024\<close> overflows.\<close>

lemma round_half_even_ge_floor: "\<lfloor>r\<rfloor> \<le> round_half_even r"
  by (simp add: round_half_even_def Let_def)

lemma to_double_large:
  assumes big: "2 powr 1024 \<le> q"
  shows "2 powr 1024 \<le> to_double q"
proof -
  define e where "e = \<lfloor>log 2 q\<rfloor>"
  define top where "top = (2::real) powr 1024"
  have tpos: "0 < top" by (simp add: top_def)
  from big have qt: "top \<le> q" by (simp only: top_def)
  with tpos have qpos: "0 < q" by linarith
  have "log 2 top = 1024" unfolding top_def by (rule log_powr_cancel) simp_all
  moreover have "log 2 top \<le> log 2 q" using tpos qt by (simp add: log_le_cancel_iff)
  ultimately have "(1024::real) \<le> log 2 q" by simp
  then have e1024: "1024 \<le> e" unfolding e_def by (simp add: le_floor_iff)
  then have fe: "float_exponent q = e"
    using qpos by (simp add: float_exponent_def e_def)
  have "real_of_int e \<le> log 2 q" unfolding e_def by simp
  then have "2 powr real_of_int e \<le> 2 powr log 2 q" by (rule powr_mono) simp
  also have "\<dots> = q" using qpos by simp
  finally have le: "2 powr real_of_int e \<le> q" .
  define u where "u = (2::real) powr (real_of_int e - 52)"
  have upos: "0 < u" by (simp add: u_def)
  have split: "2 powr real_of_int e = u * 2 powr 52"
  proof -
    have "real_of_int e = (real_of_int e - 52) + 52" by simp
    then have "2 powr real_of_int e = 2 powr ((real_of_int e - 52) + 52)" by simp
    also have "\<dots> = 2 powr (real_of_int e - 52) * 2 powr 52" by (rule powr_add)
    finally show ?thesis by (simp only: u_def)
  qed
  have p52: "(2::real) powr 52 = real_of_int (2 ^ 52)"
  proof -
    have "(2::real) powr 52 = 2 ^ 52" by (rule powr_numeral) simp
    then show ?thesis by simp
  qed
  from le split have "u * 2 powr 52 \<le> q" by simp
  with upos have "2 powr 52 \<le> q / u" by (simp add: field_simps)
  then have "real_of_int (2 ^ 52) \<le> q / u" by (simp only: p52)
  then have "2 ^ 52 \<le> \<lfloor>q / u\<rfloor>" by (simp only: le_floor_iff)
  with round_half_even_ge_floor[of "q / u"] have "2 ^ 52 \<le> round_half_even (q / u)" by linarith
  then have "real_of_int (2 ^ 52) \<le> real_of_int (round_half_even (q / u))"
    by (simp only: of_int_le_iff)
  then have "2 powr 52 \<le> real_of_int (round_half_even (q / u))" by (simp only: p52)
  with upos have "u * 2 powr 52 \<le> u * real_of_int (round_half_even (q / u))"
    by (simp only: mult_le_cancel_left_pos)
  then have "2 powr real_of_int e \<le> u * real_of_int (round_half_even (q / u))"
    by (simp only: split)
  moreover have "to_double q = u * real_of_int (round_half_even (q / u))"
    using qpos by (simp add: to_double_def Let_def fe u_def)
  moreover have "top \<le> 2 powr real_of_int e"
    unfolding top_def by (rule powr_mono) (use e1024 in simp_all)
  ultimately show ?thesis unfolding top_def by linarith
qed

lemma true_div_overflow:
  assumes "b \<noteq> 0" "2 powr 1024 \<le> real_of_int a / real_of_int b"
  shows "true_div a b = Inl OverflowError"
proof -
  from to_double_large[OF assms(2)]
  have "2 powr 1024 \<le> \<bar>to_double (real_of_int a / real_of_int b)\<bar>" by linarith
  with assms(1) show ?thesis
    unfolding true_div_def Let_def by (simp only: if_True if_False simp_thms)
qed

text \<open>The area bounds of the instances used below.\<close>

lemma locked_area: "area_lb locked_item = Inr 4"
  by (rule area_lb_value[where q = "10 / 3"])
     (simp_all add: locked_item_def rect_def area_def)

lemma swapped_area: "area_lb swapped_ids = Inr 3"
  by (rule area_lb_value[where q = "24 / 10"])
     (simp_all add: swapped_ids_def rect_def area_def)

lemma gap_area: "area_lb gap_ids = Inr 3"
  by (rule area_lb_value[where q = "24 / 10"])
     (simp_all add: gap_ids_def rect_def area_def)

lemma ordered_area: "area_lb ordered_ids = Inr 3"
  by (rule area_lb_value[where q = "24 / 10"])
     (simp_all add: ordered_ids_def rect_def area_def)

lemma huge_area: "area_lb huge_id5 = Inl OverflowError"
proof -
  have a: "sum_list (map area (rectangles huge_id5)) = 2 ^ 1024"
    by (simp add: huge_id5_def rect_def area_def)
  have w: "strip_W huge_id5 = 1" by (simp add: huge_id5_def)
  have "(2::real) powr 1024 = 2 ^ 1024" by (rule powr_numeral) simp
  also have "\<dots> = real_of_int (2 ^ 1024) / real_of_int 1" by simp
  finally have "2 powr 1024 \<le> real_of_int (2 ^ 1024) / real_of_int 1" by (rule eq_refl)
  from true_div_overflow[OF _ this] have "true_div (2 ^ 1024) 1 = Inl OverflowError" by simp
  then show ?thesis unfolding area_lb_def Let_def a w by simp
qed

subsection \<open>Which inputs make the heuristics raise\<close>

lemma orient_width: "fst (orient r allow True) = oriented_width allow r"
  by (auto simp: orient_def oriented_width_def)

lemma nfdh_loop_Inl:
  "nfdh_loop Wd d allow items pls x sy sh f = Inl e \<Longrightarrow>
   \<exists>r \<in> fst ` set items. Wd < oriented_width allow r \<and>
      e = GeometryError (rect_ident r) (oriented_width allow r) Wd"
proof (induction items arbitrary: pls x sy sh f)
  case Nil
  then show ?case by simp
next
  case (Cons it items)
  obtain r k where it: "it = (r, k)" by (cases it)
  obtain we he rot where o: "orient r allow True = (we, he, rot)" by (cases "orient r allow True")
  then have we: "we = oriented_width allow r" using orient_width[of r allow] by simp
  show ?case
  proof (cases "Wd < we")
    case True
    with Cons.prems it o we show ?thesis by auto
  next
    case False
    with Cons.prems it o obtain pls' x' sy' sh' where
      "nfdh_loop Wd d allow items pls' x' sy' sh' False = Inl e"
      by (auto simp: Let_def split: if_splits)
    from Cons.IH[OF this] show ?thesis by auto
  qed
qed

lemma nfdh_loop_fails:
  "\<exists>r \<in> fst ` set items. Wd < oriented_width allow r \<Longrightarrow>
   \<exists>e. nfdh_loop Wd d allow items pls x sy sh f = Inl e"
proof (induction items arbitrary: pls x sy sh f)
  case Nil
  then show ?case by simp
next
  case (Cons it items)
  obtain r k where it: "it = (r, k)" by (cases it)
  obtain we he rot where o: "orient r allow True = (we, he, rot)" by (cases "orient r allow True")
  then have we: "we = oriented_width allow r" using orient_width[of r allow] by simp
  show ?case
  proof (cases "Wd < we")
    case True
    with it o show ?thesis by simp
  next
    case False
    with Cons.prems it we have "\<exists>r \<in> fst ` set items. Wd < oriented_width allow r" by auto
    from Cons.IH[OF this] it o False show ?thesis by (simp add: Let_def)
  qed
qed

lemma merge_loop_nonempty: "xs \<noteq> [] \<or> acc \<noteq> [] \<Longrightarrow> merge_loop xs acc \<noteq> []"
  by (induction xs arbitrary: acc) (auto split: prod.splits)

lemma update_skyline_nonempty: "update_skyline sky x we y he \<noteq> []"
proof -
  have "sort_key fst (cut_loop x (x + we) sky [] @ [(x, we, y + he)]) \<noteq> []"
    by (metis length_sort list.size(3) length_0_conv snoc_eq_iff_butlast)
  then show ?thesis
    by (simp add: update_skyline_def Let_def merge_loop_nonempty)
qed

lemma skyline_step_cases:
  "sky \<noteq> [] \<Longrightarrow>
   (Wd < oriented_width allow r \<and>
      skyline_step Wd allow r sky = Inl (GeometryError (rect_ident r) (oriented_width allow r) Wd))
   \<or> (oriented_width allow r \<le> Wd \<and>
      (\<exists>p sky'. skyline_step Wd allow r sky = Inr (p, sky') \<and> sky' \<noteq> []))"
proof -
  assume ne: "sky \<noteq> []"
  obtain we he rot where o: "orient r allow True = (we, he, rot)" by (cases "orient r allow True")
  then have we: "we = oriented_width allow r" using orient_width[of r allow] by simp
  from ne obtain m where m: "py_max (map (\<lambda>s. snd (snd s)) sky) = Inr m"
    by (cases sky) auto
  show ?thesis
    using o we m update_skyline_nonempty
    by (cases "find_position sky we he") (auto simp: skyline_step_def)
qed

lemma skyline_loop_Inl:
  "sky \<noteq> [] \<Longrightarrow> skyline_loop Wd allow rs sky pls = Inl e \<Longrightarrow>
   \<exists>r \<in> set rs. Wd < oriented_width allow r \<and>
      e = GeometryError (rect_ident r) (oriented_width allow r) Wd"
proof (induction rs arbitrary: sky pls)
  case Nil
  then show ?case by simp
next
  case (Cons r rs)
  from skyline_step_cases[OF Cons.prems(1), of Wd allow r] show ?case
  proof
    assume "Wd < oriented_width allow r \<and>
      skyline_step Wd allow r sky = Inl (GeometryError (rect_ident r) (oriented_width allow r) Wd)"
    with Cons.prems(2) show ?thesis by auto
  next
    assume "oriented_width allow r \<le> Wd \<and>
      (\<exists>p sky'. skyline_step Wd allow r sky = Inr (p, sky') \<and> sky' \<noteq> [])"
    then obtain p sky' where s: "skyline_step Wd allow r sky = Inr (p, sky')" "sky' \<noteq> []"
      by blast
    with Cons.prems(2) have "skyline_loop Wd allow rs sky' (pls @ [p]) = Inl e" by simp
    from Cons.IH[OF s(2) this] show ?thesis by auto
  qed
qed

lemma skyline_loop_fails:
  "sky \<noteq> [] \<Longrightarrow> \<exists>r \<in> set rs. Wd < oriented_width allow r \<Longrightarrow>
   \<exists>e. skyline_loop Wd allow rs sky pls = Inl e"
proof (induction rs arbitrary: sky pls)
  case Nil
  then show ?case by simp
next
  case (Cons r rs)
  from skyline_step_cases[OF Cons.prems(1), of Wd allow r] show ?case
  proof
    assume "Wd < oriented_width allow r \<and>
      skyline_step Wd allow r sky = Inl (GeometryError (rect_ident r) (oriented_width allow r) Wd)"
    then show ?thesis by simp
  next
    assume a: "oriented_width allow r \<le> Wd \<and>
      (\<exists>p sky'. skyline_step Wd allow r sky = Inr (p, sky') \<and> sky' \<noteq> [])"
    then obtain p sky' where s: "skyline_step Wd allow r sky = Inr (p, sky')" "sky' \<noteq> []"
      by blast
    from a Cons.prems(2) have "\<exists>r \<in> set rs. Wd < oriented_width allow r" by auto
    from Cons.IH[OF s(2) this, of "pls @ [p]"] s(1) show ?thesis by simp
  qed
qed

lemma nfdh_items_fst: "fst ` set (nfdh_items inst allow) = set (rectangles inst)"
  by (force simp: nfdh_items_def)

lemma nfdh_Inl:
  assumes "nfdh hs = Inl e"
  shows "\<exists>r \<in> set (rectangles (hs_instance hs)).
           strip_W (hs_instance hs) < oriented_width (allow_rotation hs) r \<and>
           e = GeometryError (rect_ident r) (oriented_width (allow_rotation hs) r)
                 (strip_W (hs_instance hs))"
proof -
  from assms have "nfdh_loop (strip_W (hs_instance hs)) (kerf_delta (hs_instance hs))
      (allow_rotation hs) (nfdh_items (hs_instance hs) (allow_rotation hs)) [] 0 0 0 True = Inl e"
    by (auto simp: nfdh_def split: sum.splits)
  from nfdh_loop_Inl[OF this] show ?thesis by (simp add: nfdh_items_fst)
qed

lemma nfdh_fails:
  assumes "\<exists>r \<in> set (rectangles (hs_instance hs)).
             strip_W (hs_instance hs) < oriented_width (allow_rotation hs) r"
  shows "\<exists>e. nfdh hs = Inl e"
proof -
  from assms have "\<exists>r \<in> fst ` set (nfdh_items (hs_instance hs) (allow_rotation hs)).
      strip_W (hs_instance hs) < oriented_width (allow_rotation hs) r"
    by (simp add: nfdh_items_fst)
  from nfdh_loop_fails[OF this] obtain e where
    "nfdh_loop (strip_W (hs_instance hs)) (kerf_delta (hs_instance hs)) (allow_rotation hs)
       (nfdh_items (hs_instance hs) (allow_rotation hs)) [] 0 0 0 True = Inl e"
    by blast
  then have "nfdh hs = Inl e" by (simp add: nfdh_def)
  then show ?thesis by blast
qed

lemma skyline_Inl:
  assumes "skyline hs = Inl e"
  shows "\<exists>r \<in> set (rectangles (hs_instance hs)).
           strip_W (hs_instance hs) < oriented_width (allow_rotation hs) r \<and>
           e = GeometryError (rect_ident r) (oriented_width (allow_rotation hs) r)
                 (strip_W (hs_instance hs))"
proof (cases "guillotine hs")
  case True
  with assms nfdh_Inl show ?thesis by (simp add: skyline_def)
next
  case False
  with assms have "skyline_loop (strip_W (hs_instance hs)) (allow_rotation hs)
      (skyline_rects (hs_instance hs) (allow_rotation hs)) [(0, strip_W (hs_instance hs), 0)] []
      = Inl e"
    by (auto simp: skyline_def split: sum.splits)
  from skyline_loop_Inl[OF _ this] show ?thesis by (simp add: skyline_rects_def)
qed

lemma skyline_fails:
  assumes "\<exists>r \<in> set (rectangles (hs_instance hs)).
             strip_W (hs_instance hs) < oriented_width (allow_rotation hs) r"
  shows "\<exists>e. skyline hs = Inl e"
proof (cases "guillotine hs")
  case True
  with assms nfdh_fails show ?thesis by (simp add: skyline_def)
next
  case False
  from assms have "\<exists>r \<in> set (skyline_rects (hs_instance hs) (allow_rotation hs)).
      strip_W (hs_instance hs) < oriented_width (allow_rotation hs) r"
    by (simp add: skyline_rects_def)
  from skyline_loop_fails[OF _ this, of "[(0, strip_W (hs_instance hs), 0)]" "[]"] False
  show ?thesis by (auto simp: skyline_def)
qed

text \<open>
  C4 (as amended). The heuristic engine raises, under either policy, exactly when some
  rectangle's width in the orientation the rule \<open>_orient\<close> picks exceeds the strip width.
  That width is the raw width when the rectangle is not rotatable or rotation is
  disallowed, and otherwise the larger of the two sides (the rule presents the smaller
  side as the height). The error carries the id of such a rectangle, that width and the
  strip width.
\<close>

theorem geometry_error_iff:
  assumes "hpolicy hs = NFDH \<or> hpolicy hs = Skyline"
  shows "((\<exists>e. solve hs = Inl e) \<longleftrightarrow>
            (\<exists>r \<in> set (rectangles (hs_instance hs)).
               strip_W (hs_instance hs) < oriented_width (allow_rotation hs) r)) \<and>
         (\<forall>e. solve hs = Inl e \<longrightarrow>
            (\<exists>r \<in> set (rectangles (hs_instance hs)).
               strip_W (hs_instance hs) < oriented_width (allow_rotation hs) r \<and>
               e = GeometryError (rect_ident r) (oriented_width (allow_rotation hs) r)
                     (strip_W (hs_instance hs))))"
proof -
  from assms have "solve hs = nfdh hs \<or> solve hs = skyline hs"
    by (auto simp: solve_def)
  then show ?thesis
  proof
    assume s: "solve hs = nfdh hs"
    show ?thesis unfolding s using nfdh_Inl[of hs] nfdh_fails[of hs] by blast
  next
    assume s: "solve hs = skyline hs"
    show ?thesis unfolding s using skyline_Inl[of hs] skyline_fails[of hs] by blast
  qed
qed

theorem geometry_error_iff_witness:
  "(hpolicy (heuristic Skyline True tall_item) = NFDH \<or>
    hpolicy (heuristic Skyline True tall_item) = Skyline) \<and>
   solve (heuristic Skyline True tall_item) = Inl (GeometryError 1 12 10) \<and>
   \<not> (\<exists>e. solve (heuristic NFDH True scenario_E) = Inl e)"
  using geometry_error_iff [of "heuristic Skyline True tall_item"]
        geometry_error_iff [of "heuristic NFDH True scenario_E"]
  by (auto simp add: heuristic_def tall_item_def scenario_E_def rect_def oriented_width_def)

text \<open>
  The claim as stated fails: the rectangle of 3 by 12 is rotatable and its smaller side
  fits the strip of width 10, yet both policies raise.
\<close>

theorem geometry_error_counterexample:
  "solve (heuristic NFDH True tall_item) = Inl (GeometryError 1 12 10) \<and>
   solve (heuristic Skyline True tall_item) = Inl (GeometryError 1 12 10) \<and>
   rectangles tall_item = [rect 1 3 12 True] \<and>
   \<not> strip_W tall_item < min_achievable_width True (rect 1 3 12 True)"
  by code_simp

subsection \<open>Empty instances\<close>

text \<open>
  C8. On an instance without rectangles both policies return, without error, a solution
  of height 0 with no placement.
\<close>

theorem empty_instance_solution:
  "hpolicy hs = NFDH \<or> hpolicy hs = Skyline \<Longrightarrow> rectangles (hs_instance hs) = [] \<Longrightarrow>
   \<exists>m ob. solve hs = Inr \<lparr>sol_H = 0, placements = [], sol_method = m, optimality = ob\<rparr>"
  by (auto simp: solve_def nfdh_def skyline_def nfdh_items_def skyline_rects_def skyline_H_def)

theorem empty_instance_solution_witness:
  "(hpolicy (heuristic Skyline True no_items) = NFDH \<or>
    hpolicy (heuristic Skyline True no_items) = Skyline) \<and>
   rectangles (hs_instance (heuristic Skyline True no_items)) = [] \<and>
   (\<exists>m ob. solve (heuristic Skyline True no_items)
            = Inr \<lparr>sol_H = 0, placements = [], sol_method = m, optimality = ob\<rparr>)"
  using empty_instance_solution [of "heuristic Skyline True no_items"]
  by (simp add: heuristic_def no_items_def)

subsection \<open>The decoder and the orientation bits\<close>

lemma decode_rects_bits:
  "map fst zs = map fst zs' \<Longrightarrow> decode_rects m allow zs acc = decode_rects m allow zs' acc"
proof (induction zs arbitrary: zs' acc)
  case Nil
  then show ?case by simp
next
  case (Cons z zs)
  then obtain z' zs1 where zs': "zs' = z' # zs1" by (cases zs') auto
  with Cons.prems have "fst z = fst z'" "map fst zs = map fst zs1" by auto
  with Cons.IH[of zs1] zs' show ?case
    by (cases z; cases z') (auto split: option.splits)
qed

lemma decode_ignores_bits:
  assumes "length bits = length bits'"
  shows "decode ms perm bits = decode ms perm bits'"
proof -
  from assms have "map fst (zip perm bits) = map fst (zip perm bits')"
    by (simp add: map_fst_zip_take)
  from decode_rects_bits[OF this] show ?thesis by (simp add: decode_def)
qed

text \<open>
  C5. The claim says that a rotatable rectangle is placed rotated exactly when its bit
  is 1. The decoder never reads the bits: for the single rotatable rectangle of 4 by 3
  the bit vectors \<open>[1]\<close> and \<open>[0]\<close> decode to the same solution, in which the rectangle is
  not rotated.
\<close>

theorem decode_bit_one_not_rotated:
  "decode \<lparr>mh_instance = one_item, mh_allow_rotation = True, mh_strategy = SA\<rparr> [1] [1]
     = Inr \<lparr>sol_H = 3,
            placements = [\<lparr>rect_id = 1, pl_x = 0, pl_y = 0, w_eff = 4, h_eff = 3,
                           rotated = False\<rparr>],
            sol_method = ''Meta-SA-SkylineDecode'', optimality = Some ''feasible''\<rparr> \<and>
   decode \<lparr>mh_instance = one_item, mh_allow_rotation = True, mh_strategy = SA\<rparr> [1] [0]
     = decode \<lparr>mh_instance = one_item, mh_allow_rotation = True, mh_strategy = SA\<rparr> [1] [1]"
  by code_simp

subsection \<open>The number of levels\<close>

text \<open>
  C6 (as amended). When the caller gives no maximum number of levels, the level model
  takes as many levels as the instance has rectangles.
\<close>

theorem level_default_is_item_count:
  "level_L (lms\<lparr>max_levels := None\<rparr>) = int (length (rectangles (lm_instance lms)))"
  by (simp add: level_L_def)

text \<open>With four rectangles the model has four levels, not \<open>\<lceil>4 / 2\<rceil> + 1 = 3\<close>.\<close>

theorem level_default_counterexample:
  "level_L \<lparr>lm_instance = four_items, lm_allow_rotation = True, max_levels = None\<rparr> = 4 \<and>
   spec_default_levels (length (rectangles four_items)) = 3"
  by (simp add: level_L_def four_items_def spec_default_levels_def)

subsection \<open>The placements carry the instance's ids\<close>

lemma skyline_step_id:
  "skyline_step Wd allow r sky = Inr (p, sky') \<Longrightarrow> rect_id p = rect_ident r"
  by (auto simp: skyline_step_def split: prod.splits if_splits sum.splits option.splits)

lemma skyline_loop_ids:
  "skyline_loop Wd allow rs sky pls = Inr (pls', sky') \<Longrightarrow>
   map rect_id pls' = map rect_id pls @ map rect_ident rs"
proof (induction rs arbitrary: sky pls)
  case Nil
  then show ?case by simp
next
  case (Cons r rs)
  from Cons.prems obtain p sky1 where
    s: "skyline_step Wd allow r sky = Inr (p, sky1)"
    and l: "skyline_loop Wd allow rs sky1 (pls @ [p]) = Inr (pls', sky')"
    by (auto split: sum.splits)
  from Cons.IH[OF l] skyline_step_id[OF s] show ?case by simp
qed

lemma nfdh_loop_ids:
  "nfdh_loop Wd d allow items pls x sy sh f = Inr (pls', sy', sh') \<Longrightarrow>
   map rect_id pls' = map rect_id pls @ map (rect_ident \<circ> fst) items"
proof (induction items arbitrary: pls x sy sh f)
  case Nil
  then show ?case by simp
next
  case (Cons it items)
  obtain r k where it: "it = (r, k)" by (cases it)
  obtain we he rot where o: "orient r allow True = (we, he, rot)" by (cases "orient r allow True")
  from Cons.prems it o obtain p x1 sy1 sh1 where
    l: "nfdh_loop Wd d allow items (pls @ [p]) x1 sy1 sh1 False = Inr (pls', sy', sh')"
    and p: "rect_id p = rect_ident r"
    by (auto simp: Let_def split: if_splits)
  from Cons.IH[OF l] p it show ?case by simp
qed

lemma nfdh_id_set:
  assumes "nfdh hs = Inr sol"
  shows "set (map rect_id (placements sol)) = set (map rect_ident (rectangles (hs_instance hs)))"
proof -
  from assms obtain pls sy sh where
    l: "nfdh_loop (strip_W (hs_instance hs)) (kerf_delta (hs_instance hs)) (allow_rotation hs)
          (nfdh_items (hs_instance hs) (allow_rotation hs)) [] 0 0 0 True = Inr (pls, sy, sh)"
    and sol: "placements sol = pls"
    by (auto simp: nfdh_def split: sum.splits)
  have "set (map (rect_ident \<circ> fst) (nfdh_items (hs_instance hs) (allow_rotation hs)))
        = rect_ident ` set (rectangles (hs_instance hs))"
    by (simp only: set_map image_comp[symmetric] nfdh_items_fst)
  with nfdh_loop_ids[OF l] sol show ?thesis by simp
qed

lemma skyline_id_set:
  assumes "skyline hs = Inr sol"
  shows "set (map rect_id (placements sol)) = set (map rect_ident (rectangles (hs_instance hs)))"
proof (cases "guillotine hs")
  case True
  with assms nfdh_id_set show ?thesis by (simp add: skyline_def)
next
  case False
  with assms obtain pls sky where
    l: "skyline_loop (strip_W (hs_instance hs)) (allow_rotation hs)
          (skyline_rects (hs_instance hs) (allow_rotation hs))
          [(0, strip_W (hs_instance hs), 0)] [] = Inr (pls, sky)"
    and sol: "placements sol = pls"
    by (auto simp: skyline_def split: sum.splits)
  from skyline_loop_ids[OF l] sol show ?thesis by (simp add: skyline_rects_def)
qed

subsection \<open>The warm start of the coordinate model\<close>

lemma py_index_Inl: "py_index xs i = Inl e \<Longrightarrow> e = IndexError"
  by (auto simp: py_index_def split: if_splits)

lemma py_index_beyond: "int (length xs) \<le> i \<Longrightarrow> py_index xs i = Inl IndexError"
  by (auto simp: py_index_def)

lemma warm_start_loop_IndexError:
  assumes "\<forall>rid \<in> set ids. m rid \<noteq> None"
    and "\<exists>rid \<in> set ids. int (length rects) < rid"
  shows "warm_start_loop rects True m ids iv = Inl IndexError"
  using assms
proof (induction ids arbitrary: iv)
  case Nil
  then show ?case by simp
next
  case (Cons rid ids)
  from Cons.prems(1) obtain p where p: "m rid = Some p" by auto
  show ?case
  proof (cases "py_index rects (rid - 1)")
    case (Inl e)
    with py_index_Inl[OF Inl] p show ?thesis by (simp add: Let_def)
  next
    case (Inr rc)
    then have "\<not> int (length rects) < rid"
      using py_index_beyond[of rects "rid - 1"] by auto
    with Cons.prems(2) have ex: "\<exists>rid \<in> set ids. int (length rects) < rid" by auto
    from Cons.prems(1) have all: "\<forall>rid \<in> set ids. m rid \<noteq> None" by simp
    show ?thesis using p Inr Cons.IH[OF all ex] by (simp add: Let_def)
  qed
qed

lemma by_id_defined: "by_id pls rid \<noteq> None \<longleftrightarrow> rid \<in> set (map rect_id pls)"
  by (simp add: by_id_def map_of_eq_None_iff image_image)

lemma in_order_lookup:
  assumes "map rect_ident rects = map int [1..<Suc (length rects)]"
    and "rid \<in> set (map rect_ident rects)"
  shows "\<exists>r. py_index rects (rid - 1) = Inr r \<and> first_rect rects rid = Some r"
proof -
  from assms obtain k where k: "rid = int k" "1 \<le> k" "k \<le> length rects"
    by auto
  then have lt: "k - 1 < length rects" by simp
  have idx: "rect_ident (rects ! j) = int (Suc j)" if "j < length rects" for j
  proof -
    from that have "rect_ident (rects ! j) = map rect_ident rects ! j" by simp
    also have "\<dots> = int (Suc j)" using that by (simp add: assms(1) del: upt_Suc)
    finally show ?thesis .
  qed
  have here: "rect_ident (rects ! (k - 1)) = rid" using idx[OF lt] k by simp
  have before: "rect_ident (rects ! j) \<noteq> rid" if "j < k - 1" for j
    using that idx[of j] lt k by simp
  have "first_rect rects rid = Some (rects ! (k - 1))"
    unfolding first_rect_def find_Some_iff using lt here before by blast
  moreover have "py_index rects (rid - 1) = Inr (rects ! (k - 1))"
    using k lt by (auto simp: py_index_def nat_diff_distrib')
  ultimately show ?thesis by blast
qed

lemma warm_start_loops_agree:
  assumes "\<forall>rid \<in> set ids. \<exists>r. py_index rects (rid - 1) = Inr r \<and> first_rect rects rid = Some r"
  shows "warm_start_loop rects allow m ids iv = warm_start_by_id rects allow m ids iv"
  using assms
proof (induction ids arbitrary: iv)
  case Nil
  show ?case by simp
next
  case (Cons rid ids)
  from Cons.prems obtain r where
    r: "py_index rects (rid - 1) = Inr r" "first_rect rects rid = Some r" by auto
  from Cons.prems have
    "\<forall>rid \<in> set ids. \<exists>r. py_index rects (rid - 1) = Inr r \<and> first_rect rects rid = Some r"
    by simp
  note IH = Cons.IH[OF this]
  show ?case using r IH by (cases allow; cases "m rid") (simp_all add: Let_def)
qed

lemma warm_start_loop_returns:
  assumes "\<forall>rid \<in> set ids. \<exists>r. py_index rects (rid - 1) = Inr r"
  shows "\<exists>iv'. warm_start_loop rects allow m ids iv = Inr iv'"
  using assms
proof (induction ids arbitrary: iv)
  case Nil
  show ?case by simp
next
  case (Cons rid ids)
  from Cons.prems obtain r where r: "py_index rects (rid - 1) = Inr r" by auto
  from Cons.prems have "\<forall>rid \<in> set ids. \<exists>r. py_index rects (rid - 1) = Inr r" by simp
  note IH = Cons.IH[OF this]
  show ?case using r IH by (cases allow; cases "m rid") (simp_all add: Let_def)
qed

text \<open>
  C10 (as amended). The warm start reads the \<open>rotatable\<close> flag at position \<open>rid - 1\<close> of the
  rectangle list, in the condition of an \<open>if\<close> that no \<open>try\<close> guards. Suppose
  \<open>MilpSolver.solve\<close>, with warm start enabled and rotation allowed, reaches the warm
  start: the Skyline seed has returned and both lower bounds have been computed. Then an
  instance holding an id larger than the number of rectangles makes \<open>solve\<close> raise
  \<open>IndexError\<close>; and when the ids are exactly \<open>1..n\<close> in list order, the warm start
  returns, with the initial values that the lookup of each rectangle by its id gives.
\<close>

theorem warm_start_positional_lookup:
  assumes "warm_start ms" and "ml_allow_rotation ms"
    and "solve \<lparr>hs_instance = ml_instance ms, allow_rotation = ml_allow_rotation ms,
                 hpolicy = Skyline, guillotine = False\<rparr> = Inr hsol"
    and "maxh_lb (ml_instance ms) (ml_allow_rotation ms) = Inr mh"
    and "area_lb (ml_instance ms) = Inr a"
  shows "((\<exists>r \<in> set (rectangles (ml_instance ms)).
             int (length (rectangles (ml_instance ms))) < rect_ident r)
          \<longrightarrow> milp_prepare True ms = Inl IndexError) \<and>
         (map rect_ident (rectangles (ml_instance ms))
            = map int [1..<Suc (length (rectangles (ml_instance ms)))]
          \<longrightarrow> (\<exists>iv. milp_prepare True ms = Inr iv \<and>
                    warm_start_by_id (rectangles (ml_instance ms)) True
                      (by_id (placements hsol)) (map rect_ident (rectangles (ml_instance ms)))
                      \<lparr>init_x = Map.empty, init_y = Map.empty, init_r = Map.empty\<rparr> = Inr iv))"
proof (intro conjI impI)
  let ?rects = "rectangles (ml_instance ms)"
  let ?ids = "map rect_ident ?rects"
  let ?m = "by_id (placements hsol)"
  let ?iv0 = "\<lparr>init_x = Map.empty, init_y = Map.empty, init_r = Map.empty\<rparr>"
  have prep: "milp_prepare True ms = warm_start_loop ?rects True ?m ?ids ?iv0"
    using assms by (simp add: milp_prepare_def)
  {
    assume big: "\<exists>r \<in> set ?rects. int (length ?rects) < rect_ident r"
    from assms(3) have
      "skyline \<lparr>hs_instance = ml_instance ms, allow_rotation = ml_allow_rotation ms,
                hpolicy = Skyline, guillotine = False\<rparr> = Inr hsol"
      by (simp add: solve_def)
    from skyline_id_set[OF this]
    have "set (map rect_id (placements hsol)) = set ?ids" by simp
    then have def: "\<forall>rid \<in> set ?ids. ?m rid \<noteq> None"
      using by_id_defined by blast
    from big have ex: "\<exists>rid \<in> set ?ids. int (length ?rects) < rid" by auto
    from warm_start_loop_IndexError[OF def ex] prep
    show "milp_prepare True ms = Inl IndexError" by simp
  }
  {
    assume ord: "?ids = map int [1..<Suc (length ?rects)]"
    from in_order_lookup[OF ord] have both:
      "\<forall>rid \<in> set ?ids. \<exists>r. py_index ?rects (rid - 1) = Inr r \<and> first_rect ?rects rid = Some r"
      by blast
    then have "\<forall>rid \<in> set ?ids. \<exists>r. py_index ?rects (rid - 1) = Inr r" by blast
    from warm_start_loop_returns[OF this] obtain iv where
      iv: "warm_start_loop ?rects True ?m ?ids ?iv0 = Inr iv" by blast
    with warm_start_loops_agree[OF both, of True ?m ?iv0]
    have "warm_start_by_id ?rects True ?m ?ids ?iv0 = Inr iv" by simp
    with iv prep
    show "\<exists>iv. milp_prepare True ms = Inr iv \<and>
               warm_start_by_id ?rects True ?m ?ids ?iv0 = Inr iv" by simp
  }
qed

theorem warm_start_positional_lookup_witness:
  "warm_start gap_solver \<and> ml_allow_rotation gap_solver \<and>
   maxh_lb (ml_instance gap_solver) (ml_allow_rotation gap_solver) = Inr 3 \<and>
   area_lb (ml_instance gap_solver) = Inr 3 \<and>
   map rect_ident (rectangles (ml_instance gap_solver)) = [1, 5] \<and>
   milp_prepare True gap_solver = Inl IndexError \<and>
   warm_start ordered_solver \<and> ml_allow_rotation ordered_solver \<and>
   maxh_lb (ml_instance ordered_solver) (ml_allow_rotation ordered_solver) = Inr 3 \<and>
   area_lb (ml_instance ordered_solver) = Inr 3 \<and>
   map rect_ident (rectangles (ml_instance ordered_solver)) = [1, 2] \<and>
   (\<exists>iv. milp_prepare True ordered_solver = Inr iv \<and>
         warm_start_by_id (rectangles (ml_instance ordered_solver)) True
           (by_id [\<lparr>rect_id = 1, pl_x = 0, pl_y = 0, w_eff = 4, h_eff = 3, rotated = False\<rparr>,
                   \<lparr>rect_id = 2, pl_x = 4, pl_y = 0, w_eff = 4, h_eff = 3, rotated = False\<rparr>])
           [1, 2] \<lparr>init_x = Map.empty, init_y = Map.empty, init_r = Map.empty\<rparr> = Inr iv)"
proof -
  have seed1:
    "solve \<lparr>hs_instance = ml_instance gap_solver, allow_rotation = ml_allow_rotation gap_solver,
            hpolicy = Skyline, guillotine = False\<rparr>
     = Inr \<lparr>sol_H = 3,
            placements = [\<lparr>rect_id = 1, pl_x = 0, pl_y = 0, w_eff = 4, h_eff = 3, rotated = False\<rparr>,
                          \<lparr>rect_id = 5, pl_x = 4, pl_y = 0, w_eff = 4, h_eff = 3, rotated = False\<rparr>],
            sol_method = ''Heuristic-Skyline'', optimality = Some ''feasible''\<rparr>"
    by code_simp
  have seed2:
    "solve \<lparr>hs_instance = ml_instance ordered_solver,
            allow_rotation = ml_allow_rotation ordered_solver,
            hpolicy = Skyline, guillotine = False\<rparr>
     = Inr \<lparr>sol_H = 3,
            placements = [\<lparr>rect_id = 1, pl_x = 0, pl_y = 0, w_eff = 4, h_eff = 3, rotated = False\<rparr>,
                          \<lparr>rect_id = 2, pl_x = 4, pl_y = 0, w_eff = 4, h_eff = 3, rotated = False\<rparr>],
            sol_method = ''Heuristic-Skyline'', optimality = Some ''feasible''\<rparr>"
    by code_simp
  have g: "warm_start gap_solver" "ml_allow_rotation gap_solver"
    "maxh_lb (ml_instance gap_solver) (ml_allow_rotation gap_solver) = Inr 3"
    "map rect_ident (rectangles (ml_instance gap_solver)) = [1, 5]"
    by (simp_all add: gap_solver_def gap_ids_def rect_def maxh_lb_def)
  have ga: "area_lb (ml_instance gap_solver) = Inr 3"
    using gap_area by (simp add: gap_solver_def)
  have o: "warm_start ordered_solver" "ml_allow_rotation ordered_solver"
    "maxh_lb (ml_instance ordered_solver) (ml_allow_rotation ordered_solver) = Inr 3"
    "map rect_ident (rectangles (ml_instance ordered_solver)) = [1, 2]"
    by (simp_all add: ordered_solver_def ordered_ids_def rect_def maxh_lb_def)
  have oa: "area_lb (ml_instance ordered_solver) = Inr 3"
    using ordered_area by (simp add: ordered_solver_def)
  have len: "length (rectangles (ml_instance gap_solver)) = 2"
    "length (rectangles (ml_instance ordered_solver)) = 2"
    "set (rectangles (ml_instance gap_solver)) = {rect 1 4 3 True, rect 5 4 3 True}"
    by (simp_all add: gap_solver_def gap_ids_def ordered_solver_def ordered_ids_def)
  have up: "map int [1..<Suc (length (rectangles (ml_instance ordered_solver)))] = [1, 2]"
    by (simp add: len upt_rec)
  from warm_start_positional_lookup [OF g(1) g(2) seed1 g(3) ga]
  have r1: "milp_prepare True gap_solver = Inl IndexError"
    by (simp add: len rect_def)
  from warm_start_positional_lookup [OF o(1) o(2) seed2 o(3) oa, unfolded o(4) up]
  have r2: "\<exists>iv. milp_prepare True ordered_solver = Inr iv \<and>
         warm_start_by_id (rectangles (ml_instance ordered_solver)) True
           (by_id [\<lparr>rect_id = 1, pl_x = 0, pl_y = 0, w_eff = 4, h_eff = 3, rotated = False\<rparr>,
                   \<lparr>rect_id = 2, pl_x = 4, pl_y = 0, w_eff = 4, h_eff = 3, rotated = False\<rparr>])
           [1, 2] \<lparr>init_x = Map.empty, init_y = Map.empty, init_r = Map.empty\<rparr> = Inr iv"
    by (simp del: warm_start_by_id.simps)
  from g ga o oa r1 r2 show ?thesis by (simp del: warm_start_by_id.simps)
qed

text \<open>
  The claim as stated fails twice. The position \<open>rid - 1\<close> is right for other id lists
  too: with the ids 1 and 0 in this order, \<open>rectangles[0 - 1]\<close> is the last rectangle,
  the one with the id 0, and the warm start gives what the lookup by id gives. And an id
  above the number of rectangles does not always lead to the list access: a rectangle
  with the id 5 that is wider than the strip makes the Skyline seed raise first, and one
  with the id 5 and the area \<open>2^1024\<close> in a strip of width 1 makes \<open>area_lb\<close> raise
  \<open>OverflowError\<close> first.
\<close>

lemma wide_seed:
  "solve \<lparr>hs_instance = wide_id5, allow_rotation = True, hpolicy = Skyline, guillotine = False\<rparr>
   = Inl (GeometryError 5 12 10)"
  by code_simp

lemma swapped_seed:
  "solve \<lparr>hs_instance = swapped_ids, allow_rotation = True, hpolicy = Skyline, guillotine = False\<rparr>
   = Inr \<lparr>sol_H = 3,
          placements = [\<lparr>rect_id = 1, pl_x = 0, pl_y = 0, w_eff = 4, h_eff = 3, rotated = False\<rparr>,
                        \<lparr>rect_id = 0, pl_x = 4, pl_y = 0, w_eff = 4, h_eff = 3, rotated = False\<rparr>],
          sol_method = ''Heuristic-Skyline'', optimality = Some ''feasible''\<rparr>"
  by code_simp

lemma huge_seed:
  "solve \<lparr>hs_instance = huge_id5, allow_rotation = True, hpolicy = Skyline, guillotine = False\<rparr>
   = Inr \<lparr>sol_H = 2 ^ 1024,
          placements = [\<lparr>rect_id = 5, pl_x = 0, pl_y = 0, w_eff = 1, h_eff = 2 ^ 1024,
                         rotated = False\<rparr>],
          sol_method = ''Heuristic-Skyline'', optimality = Some ''feasible''\<rparr>"
  by code_simp

lemma huge_prepare: "milp_prepare True huge_solver = Inl OverflowError"
proof -
  have mh: "maxh_lb huge_id5 True = Inr 1"
    by (simp add: maxh_lb_def huge_id5_def rect_def)
  show ?thesis
    by (simp add: milp_prepare_def huge_solver_def huge_seed mh huge_area)
qed

theorem warm_start_counterexample:
  "warm_start swapped_solver \<and> ml_allow_rotation swapped_solver \<and>
   map rect_ident (rectangles (ml_instance swapped_solver)) = [1, 0] \<and>
   milp_prepare True swapped_solver =
     warm_start_by_id (rectangles (ml_instance swapped_solver)) True
       (by_id [\<lparr>rect_id = 1, pl_x = 0, pl_y = 0, w_eff = 4, h_eff = 3, rotated = False\<rparr>,
               \<lparr>rect_id = 0, pl_x = 4, pl_y = 0, w_eff = 4, h_eff = 3, rotated = False\<rparr>])
       [1, 0] \<lparr>init_x = Map.empty, init_y = Map.empty, init_r = Map.empty\<rparr> \<and>
   \<not> isl (milp_prepare True swapped_solver) \<and>
   warm_start wide_solver \<and> ml_allow_rotation wide_solver \<and>
   map rect_ident (rectangles (ml_instance wide_solver)) = [5] \<and>
   length (rectangles (ml_instance wide_solver)) = 1 \<and>
   milp_prepare True wide_solver = Inl (GeometryError 5 12 10) \<and>
   warm_start huge_solver \<and> ml_allow_rotation huge_solver \<and>
   map rect_ident (rectangles (ml_instance huge_solver)) = [5] \<and>
   length (rectangles (ml_instance huge_solver)) = 1 \<and>
   milp_prepare True huge_solver = Inl OverflowError"
proof -
  have mh: "maxh_lb swapped_ids True = Inr 3"
    by (simp add: maxh_lb_def swapped_ids_def rect_def)
  have ids: "map rect_ident (rectangles swapped_ids) = [1, 0]"
    by (simp add: swapped_ids_def rect_def)
  have run: "milp_prepare True swapped_solver =
     warm_start_loop (rectangles swapped_ids) True
       (by_id [\<lparr>rect_id = 1, pl_x = 0, pl_y = 0, w_eff = 4, h_eff = 3, rotated = False\<rparr>,
               \<lparr>rect_id = 0, pl_x = 4, pl_y = 0, w_eff = 4, h_eff = 3, rotated = False\<rparr>])
       [1, 0] \<lparr>init_x = Map.empty, init_y = Map.empty, init_r = Map.empty\<rparr>"
    by (simp add: milp_prepare_def swapped_solver_def swapped_seed mh swapped_area ids
             del: warm_start_loop.simps)
  have a: "warm_start_loop (rectangles swapped_ids) True
       (by_id [\<lparr>rect_id = 1, pl_x = 0, pl_y = 0, w_eff = 4, h_eff = 3, rotated = False\<rparr>,
               \<lparr>rect_id = 0, pl_x = 4, pl_y = 0, w_eff = 4, h_eff = 3, rotated = False\<rparr>])
       [1, 0] \<lparr>init_x = Map.empty, init_y = Map.empty, init_r = Map.empty\<rparr>
     = Inr \<lparr>init_x = [1 \<mapsto> 0, 0 \<mapsto> 4], init_y = [1 \<mapsto> 0, 0 \<mapsto> 0], init_r = [1 \<mapsto> 0]\<rparr>"
    by (simp add: swapped_ids_def rect_def by_id_def py_index_def Let_def)
  have b: "warm_start_by_id (rectangles swapped_ids) True
       (by_id [\<lparr>rect_id = 1, pl_x = 0, pl_y = 0, w_eff = 4, h_eff = 3, rotated = False\<rparr>,
               \<lparr>rect_id = 0, pl_x = 4, pl_y = 0, w_eff = 4, h_eff = 3, rotated = False\<rparr>])
       [1, 0] \<lparr>init_x = Map.empty, init_y = Map.empty, init_r = Map.empty\<rparr>
     = Inr \<lparr>init_x = [1 \<mapsto> 0, 0 \<mapsto> 4], init_y = [1 \<mapsto> 0, 0 \<mapsto> 0], init_r = [1 \<mapsto> 0]\<rparr>"
    by (simp add: swapped_ids_def rect_def by_id_def first_rect_def Let_def)
  have w: "milp_prepare True wide_solver = Inl (GeometryError 5 12 10)"
    by (simp add: milp_prepare_def wide_solver_def wide_seed)
  have s: "ml_instance swapped_solver = swapped_ids" by (simp add: swapped_solver_def)
  have c: "warm_start swapped_solver" "ml_allow_rotation swapped_solver"
    "warm_start wide_solver" "ml_allow_rotation wide_solver"
    "map rect_ident (rectangles (ml_instance wide_solver)) = [5]"
    "length (rectangles (ml_instance wide_solver)) = 1"
    by (simp_all add: swapped_solver_def wide_solver_def wide_id5_def rect_def)
  have h: "warm_start huge_solver" "ml_allow_rotation huge_solver"
    "map rect_ident (rectangles (ml_instance huge_solver)) = [5]"
    "length (rectangles (ml_instance huge_solver)) = 1"
    by (simp_all add: huge_solver_def huge_id5_def rect_def)
  show ?thesis
    unfolding s run a b ids
    by (simp add: w c h huge_prepare)
qed

subsection \<open>The level model and rectangles that must not be rotated\<close>

lemma locked_L: "nat (level_L locked_solver) = 1"
  by (simp add: level_L_def locked_solver_def locked_item_def)

lemma locked_first: "first_rect (rectangles locked_item) 1 = Some (rect 1 5 2 False)"
  by (simp add: first_rect_def locked_item_def rect_def)

lemma locked_bounds:
  "area_lb locked_item = Inr 4" "maxh_lb locked_item True = Inr 2"
  by (rule locked_area) (simp add: maxh_lb_def locked_item_def rect_def)

lemma locked_values_feasible: "level_constraints locked_solver locked_values"
  unfolding level_constraints_def Let_def locked_L
  by (simp add: locked_bounds locked_first is_binary_def locked_values_def locked_solver_def rect_def)
    (simp add: locked_item_def rect_def first_rect_def)

lemma locked_values_decode: "level_solve True locked_solver locked_values
     = Inr \<lparr>sol_H = 5,
            placements = [\<lparr>rect_id = 1, pl_x = 0, pl_y = 0, w_eff = 2, h_eff = 5, rotated = True\<rparr>],
            sol_method = ''MILP-ShelfLevel'', optimality = Some ''Optimal''\<rparr>"
  unfolding level_solve_def locked_L
  by (simp add: locked_solver_def locked_bounds)
     (simp add: locked_item_def rect_def locked_values_def py_int_def eff_h_def first_rect_def)


lemma locked_forced:
  assumes "level_constraints locked_solver vals"
  shows "val_zV vals 1 0 = 1 \<and> val_zH vals 1 0 = 0 \<and> 5 \<le> val_s vals 0"
proof -
  from assms have
    bin: "is_binary (val_u vals 0)" "is_binary (val_zH vals 1 0)" "is_binary (val_zV vals 1 0)"
    and one: "val_zH vals 1 0 + val_zV vals 1 0 = 1"
    and wid: "5 * val_zH vals 1 0 + 2 * val_zV vals 1 0 \<le> 3 * val_u vals 0"
    and hei: "5 * val_zV vals 1 0 \<le> val_s vals 0"
    unfolding level_constraints_def Let_def locked_L
    by (simp_all add: locked_first locked_solver_def rect_def)
       (simp_all add: locked_item_def rect_def first_rect_def)
  from bin one wid hei show ?thesis
    by (auto simp: is_binary_def)
qed

lemma locked_always_rotated:
  assumes "level_constraints locked_solver vals"
  shows "level_solve True locked_solver vals
     = Inr \<lparr>sol_H = 5,
            placements = [\<lparr>rect_id = 1, pl_x = 0, pl_y = 0, w_eff = 2, h_eff = 5, rotated = True\<rparr>],
            sol_method = ''MILP-ShelfLevel'', optimality = Some (val_status vals)\<rparr>"
proof -
  from locked_forced[OF assms] have zv: "val_zV vals 1 0 = 1" and s: "5 \<le> val_s vals 0"
    by simp_all
  from s have "5 \<le> \<lfloor>val_s vals 0\<rfloor>" by (simp add: le_floor_iff)
  with s have pos: "\<not> py_int (val_s vals 0) \<le> 0" by (simp add: py_int_def)
  show ?thesis
    unfolding level_solve_def locked_L
    using pos zv
    by (simp add: locked_solver_def locked_bounds)
       (simp add: locked_item_def rect_def eff_h_def first_rect_def)
qed


text \<open>
  C2. The claim holds for the heuristics and the coordinate model, which test
  \<open>rotatable\<close>, but not for the level model: it creates the rotated-assignment variables
  for every id and never reads \<open>rotatable\<close>. For the rectangle of 5 by 2 with
  \<open>rotatable = False\<close> in a strip of width 3 the values below satisfy every constraint of
  the model, and the solution rebuilt from them places the rectangle rotated. (By
  \<open>locked_always_rotated\<close> every assignment that satisfies the constraints does.)
\<close>

theorem level_model_rotates_locked_rectangle:
  "rectangles (lm_instance locked_solver) = [rect 1 5 2 False] \<and>
   \<not> rotatable (rect 1 5 2 False) \<and>
   level_constraints locked_solver locked_values \<and>
   level_solve True locked_solver locked_values
     = Inr \<lparr>sol_H = 5,
            placements = [\<lparr>rect_id = 1, pl_x = 0, pl_y = 0, w_eff = 2, h_eff = 5, rotated = True\<rparr>],
            sol_method = ''MILP-ShelfLevel'', optimality = Some ''Optimal''\<rparr>"
  using locked_values_feasible locked_values_decode
  by (simp add: locked_solver_def locked_item_def rect_def)

theorem level_model_rotates_locked_rectangle_witness:
  "\<not> rotatable (rect 1 5 2 False) \<and>
   map rotated (placements (projr (level_solve True locked_solver locked_values))) = [True]"
  using level_model_rotates_locked_rectangle by simp

subsection \<open>The shelf policy: geometry\<close>

lemma all_pairs_separated_snoc:
  "all_pairs_separated (pls @ [q]) \<longleftrightarrow>
     all_pairs_separated pls \<and> (\<forall>p \<in> set pls. separated p q)"
  by (induction pls) (auto simp: list_all_iff)

lemma nfdh_geom_same_shelf:
  assumes "nfdh_geom Wd pls x sy sh" "0 \<le> we" "0 \<le> he" "x \<le> x1" "x1 + we \<le> Wd"
  shows "nfdh_geom Wd
           (pls @ [\<lparr>rect_id = i, pl_x = x1, pl_y = sy, w_eff = we, h_eff = he, rotated = rot\<rparr>])
           (x1 + we) sy (max sh he)"
  using assms unfolding nfdh_geom_def all_pairs_separated_snoc
  by (auto simp: separated_def)

lemma nfdh_geom_new_shelf:
  assumes "nfdh_geom Wd pls x sy sh" "0 \<le> we" "0 \<le> he" "we \<le> Wd" "sy + sh \<le> sy1"
  shows "nfdh_geom Wd
           (pls @ [\<lparr>rect_id = i, pl_x = 0, pl_y = sy1, w_eff = we, h_eff = he, rotated = rot\<rparr>])
           (0 + we) sy1 he"
  using assms unfolding nfdh_geom_def all_pairs_separated_snoc
  by (auto simp: separated_def)

lemma orient_dims:
  "orient r allow True = (we, he, rot) \<Longrightarrow>
   (we = rect_w r \<and> he = rect_h r \<and> \<not> rot) \<or>
   (we = rect_h r \<and> he = rect_w r \<and> rot \<and> allow \<and> rotatable r)"
  by (auto simp: orient_def split: if_splits)

lemma nfdh_loop_geom:
  assumes "0 \<le> d" "\<forall>r \<in> fst ` set items. 0 < rect_w r \<and> 0 < rect_h r"
    and "nfdh_loop Wd d allow items pls x sy sh f = Inr (pls', sy', sh')"
    and "nfdh_geom Wd pls x sy sh"
  shows "\<exists>x'. nfdh_geom Wd pls' x' sy' sh'"
  using assms(2-4)
proof (induction items arbitrary: pls x sy sh f)
  case Nil
  then show ?case by auto
next
  case (Cons it items)
  obtain r k where it: "it = (r, k)" by (cases it)
  obtain we he rot where o: "orient r allow True = (we, he, rot)" by (cases "orient r allow True")
  from Cons.prems(1) it have "0 < rect_w r" "0 < rect_h r" by auto
  with orient_dims[OF o] have pos: "0 \<le> we" "0 \<le> he" by auto
  from Cons.prems(1) have rest: "\<forall>r \<in> fst ` set items. 0 < rect_w r \<and> 0 < rect_h r" by auto
  from Cons.prems(2) it o have le: "we \<le> Wd" by (auto split: if_splits)
  show ?case
  proof (cases "x + (if f then 0 else d) + we \<le> Wd")
    case True
    let ?x1 = "x + (if f then 0 else d)"
    from True Cons.prems(2) it o le have l:
      "nfdh_loop Wd d allow items
         (pls @ [\<lparr>rect_id = rect_ident r, pl_x = ?x1, pl_y = sy, w_eff = we, h_eff = he,
                   rotated = rot\<rparr>]) (?x1 + we) sy (max sh he) False = Inr (pls', sy', sh')"
      by (simp add: Let_def)
    have "x \<le> ?x1" using assms(1) by simp
    from nfdh_geom_same_shelf[OF Cons.prems(3) pos this True]
    show ?thesis using Cons.IH[OF rest l] by blast
  next
    case False
    let ?sy1 = "sy + (sh + (if sh > 0 then d else 0))"
    from False Cons.prems(2) it o le have l:
      "nfdh_loop Wd d allow items
         (pls @ [\<lparr>rect_id = rect_ident r, pl_x = 0, pl_y = ?sy1, w_eff = we, h_eff = he,
                   rotated = rot\<rparr>]) (0 + we) ?sy1 he False = Inr (pls', sy', sh')"
      by (simp add: Let_def)
    have "sy + sh \<le> ?sy1" using assms(1) by simp
    from nfdh_geom_new_shelf[OF Cons.prems(3) pos le this]
    show ?thesis using Cons.IH[OF rest l] by blast
  qed
qed

subsection \<open>The shelf policy: kerf gaps and the returned height\<close>

lemma kerf_gaps_snoc:
  "kerf_gaps d (pls @ [q]) \<longleftrightarrow>
     kerf_gaps d pls \<and>
     (pls = [] \<or> (pl_y q = pl_y (last pls) \<longrightarrow> pl_x q = pl_x (last pls) + w_eff (last pls) + d))"
  by (auto simp: kerf_gaps_def successively_append_iff)

lemma nfdh_shelf_same_shelf:
  assumes "nfdh_shelf d pls x sy sh f" "0 < he"
  shows "nfdh_shelf d
           (pls @ [\<lparr>rect_id = i, pl_x = x + (if f then 0 else d), pl_y = sy, w_eff = we,
                     h_eff = he, rotated = rot\<rparr>])
           (x + (if f then 0 else d) + we) sy (max sh he) False"
proof (cases f)
  case True
  with assms show ?thesis
    by (simp add: nfdh_shelf_def kerf_gaps_def)
next
  case False
  let ?q = "\<lparr>rect_id = i, pl_x = x + d, pl_y = sy, w_eff = we, h_eff = he, rotated = rot\<rparr>"
  from assms False have inv:
    "pls \<noteq> []" "pl_y (last pls) = sy" "pl_x (last pls) + w_eff (last pls) = x" "0 < sh"
    "\<exists>p \<in> set pls. pl_y p = sy \<and> h_eff p = sh"
    "\<forall>p \<in> set pls. pl_y p \<le> sy \<and> (pl_y p = sy \<longrightarrow> h_eff p \<le> sh)"
    "kerf_gaps d pls"
    by (auto simp: nfdh_shelf_def)
  have att: "\<exists>p \<in> set (pls @ [?q]). pl_y p = sy \<and> h_eff p = max sh he"
  proof (cases "sh \<le> he")
    case True
    then show ?thesis by (auto simp: max_def)
  next
    case False
    with inv(5) show ?thesis by (auto simp: max_def)
  qed
  have kg: "kerf_gaps d (pls @ [?q])"
    using inv by (simp add: kerf_gaps_snoc)
  show ?thesis
    using False inv att kg unfolding nfdh_shelf_def
    by (auto simp: max_def)
qed

lemma nfdh_shelf_new_shelf:
  assumes "nfdh_shelf d pls x sy sh False" "0 < he" "0 \<le> d"
  shows "nfdh_shelf d
           (pls @ [\<lparr>rect_id = i, pl_x = 0, pl_y = sy + (sh + (if sh > 0 then d else 0)),
                     w_eff = we, h_eff = he, rotated = rot\<rparr>])
           (0 + we) (sy + (sh + (if sh > 0 then d else 0))) he False"
proof -
  let ?sy1 = "sy + (sh + (if sh > 0 then d else 0))"
  let ?q = "\<lparr>rect_id = i, pl_x = 0, pl_y = ?sy1, w_eff = we, h_eff = he, rotated = rot\<rparr>"
  from assms have inv:
    "pls \<noteq> []" "pl_y (last pls) = sy" "0 < sh"
    "\<forall>p \<in> set pls. pl_y p \<le> sy \<and> (pl_y p = sy \<longrightarrow> h_eff p \<le> sh)"
    "kerf_gaps d pls"
    by (auto simp: nfdh_shelf_def)
  from inv(3) assms(3) have up: "sy < ?sy1" by simp
  have kg: "kerf_gaps d (pls @ [?q])"
    using inv up by (simp add: kerf_gaps_snoc)
  have below: "\<forall>p \<in> set pls. pl_y p < ?sy1" using inv(4) up by fastforce
  show ?thesis
    unfolding nfdh_shelf_def
    using kg below assms(2) by (auto simp: less_imp_le)
qed

lemma nfdh_loop_shelf:
  assumes "0 \<le> d" "\<forall>r \<in> fst ` set items. 0 < rect_w r \<and> 0 < rect_h r"
    and "nfdh_loop Wd d allow items pls x sy sh f = Inr (pls', sy', sh')"
    and "nfdh_shelf d pls x sy sh f"
  shows "\<exists>x'. nfdh_shelf d pls' x' sy' sh' (f \<and> items = [])"
  using assms(2-4)
proof (induction items arbitrary: pls x sy sh f)
  case Nil
  then show ?case by auto
next
  case (Cons it items)
  obtain r k where it: "it = (r, k)" by (cases it)
  obtain we he rot where o: "orient r allow True = (we, he, rot)" by (cases "orient r allow True")
  from Cons.prems(1) it have "0 < rect_w r" "0 < rect_h r" by auto
  with orient_dims[OF o] have pos: "0 < we" "0 < he" by auto
  from Cons.prems(1) have rest: "\<forall>r \<in> fst ` set items. 0 < rect_w r \<and> 0 < rect_h r" by auto
  from Cons.prems(2) it o have le: "we \<le> Wd" by (auto split: if_splits)
  show ?case
  proof (cases "x + (if f then 0 else d) + we \<le> Wd")
    case True
    let ?x1 = "x + (if f then 0 else d)"
    from True Cons.prems(2) it o le have l:
      "nfdh_loop Wd d allow items
         (pls @ [\<lparr>rect_id = rect_ident r, pl_x = ?x1, pl_y = sy, w_eff = we, h_eff = he,
                   rotated = rot\<rparr>]) (?x1 + we) sy (max sh he) False = Inr (pls', sy', sh')"
      by (simp add: Let_def)
    from nfdh_shelf_same_shelf[OF Cons.prems(3) pos(2)]
    show ?thesis using Cons.IH[OF rest l] by simp
  next
    case False
    have nf: "\<not> f"
    proof
      assume f
      with Cons.prems(3) have "x = 0" by (simp add: nfdh_shelf_def)
      with \<open>f\<close> False le show False by simp
    qed
    let ?sy1 = "sy + (sh + (if sh > 0 then d else 0))"
    from False Cons.prems(2) it o le have l:
      "nfdh_loop Wd d allow items
         (pls @ [\<lparr>rect_id = rect_ident r, pl_x = 0, pl_y = ?sy1, w_eff = we, h_eff = he,
                   rotated = rot\<rparr>]) (0 + we) ?sy1 he False = Inr (pls', sy', sh')"
      by (simp add: Let_def)
    from Cons.prems(3) nf have "nfdh_shelf d pls x sy sh False" by simp
    from nfdh_shelf_new_shelf[OF this pos(2) assms(1)]
    show ?thesis using Cons.IH[OF rest l] by simp
  qed
qed

lemma last_shelf_top_eq:
  assumes "nfdh_shelf d pls x sy sh False"
  shows "last_shelf_top pls = sy + sh"
proof -
  from assms have inv:
    "pl_y (last pls) = sy"
    "\<exists>p \<in> set pls. pl_y p = sy \<and> h_eff p = sh"
    "\<forall>p \<in> set pls. pl_y p = sy \<longrightarrow> h_eff p \<le> sh"
    by (auto simp: nfdh_shelf_def)
  have "Max (h_eff ` {p \<in> set pls. pl_y p = sy}) = sh"
  proof (rule Max_eqI)
    show "finite (h_eff ` {p \<in> set pls. pl_y p = sy})" by simp
    show "\<And>v. v \<in> h_eff ` {p \<in> set pls. pl_y p = sy} \<Longrightarrow> v \<le> sh" using inv(3) by auto
    show "sh \<in> h_eff ` {p \<in> set pls. pl_y p = sy}" using inv(2) by force
  qed
  with inv(1) show ?thesis by (simp add: last_shelf_top_def)
qed


lemma wf_instance_items:
  "wf_instance inst \<Longrightarrow> \<forall>r \<in> fst ` set (nfdh_items inst allow). 0 < rect_w r \<and> 0 < rect_h r"
  by (simp add: nfdh_items_fst wf_instance_def list_all_iff)

lemma nfdh_kerf_height_general:
  assumes "wf_instance (hs_instance hs)" "nfdh hs = Inr sol"
  shows "kerf_gaps (kerf_delta (hs_instance hs)) (placements sol) \<and>
         (placements sol \<noteq> [] \<longrightarrow> sol_H sol = last_shelf_top (placements sol))"
proof -
  let ?d = "kerf_delta (hs_instance hs)"
  let ?items = "nfdh_items (hs_instance hs) (allow_rotation hs)"
  from assms(2) obtain pls sy sh where
    l: "nfdh_loop (strip_W (hs_instance hs)) ?d (allow_rotation hs) ?items [] 0 0 0 True
          = Inr (pls, sy, sh)"
    and sol: "placements sol = pls" "sol_H sol = sy + sh"
    by (auto simp: nfdh_def split: sum.splits)
  from assms(1) have d: "0 \<le> ?d" by (simp add: wf_instance_def)
  have init: "nfdh_shelf ?d [] 0 0 0 True" by (simp add: nfdh_shelf_def kerf_gaps_def)
  from nfdh_loop_shelf[OF d wf_instance_items[OF assms(1)] l init]
  obtain x' where inv: "nfdh_shelf ?d pls x' sy sh (?items = [])" by auto
  then have kg: "kerf_gaps ?d pls" by (simp add: nfdh_shelf_def)
  have "sy + sh = last_shelf_top pls" if "pls \<noteq> []"
  proof -
    from that inv have "?items \<noteq> []" by (auto simp: nfdh_shelf_def)
    with inv have "nfdh_shelf ?d pls x' sy sh False" by simp
    from last_shelf_top_eq[OF this] show ?thesis by simp
  qed
  with kg sol show ?thesis by simp
qed

lemma scenario_E_nfdh:
  "solve (heuristic NFDH True scenario_E)
     = Inr \<lparr>sol_H = 3,
            placements = [\<lparr>rect_id = 1, pl_x = 0, pl_y = 0, w_eff = 4, h_eff = 3, rotated = False\<rparr>,
                          \<lparr>rect_id = 2, pl_x = 6, pl_y = 0, w_eff = 4, h_eff = 3, rotated = False\<rparr>],
            sol_method = ''Heuristic-NFDH'', optimality = Some ''feasible''\<rparr>"
  by code_simp

text \<open>
  C7. On a well-formed instance the shelf policy puts two neighbours of the placement
  list that stand on the same shelf exactly \<open>kerf_delta\<close> apart, and the height it returns
  is the top of the last shelf. In Scenario E (width 10, kerf 2, two rectangles of 4 by
  3) both items stand on the first shelf, the second at \<open>x = 6\<close>, and \<open>6 + 4 \<le> 10\<close>.
\<close>

theorem nfdh_kerf_and_height:
  "(wf_instance (hs_instance hs) \<longrightarrow> nfdh hs = Inr sol \<longrightarrow>
      kerf_gaps (kerf_delta (hs_instance hs)) (placements sol) \<and>
      (placements sol \<noteq> [] \<longrightarrow> sol_H sol = last_shelf_top (placements sol))) \<and>
   solve (heuristic NFDH True scenario_E)
     = Inr \<lparr>sol_H = 3,
            placements = [\<lparr>rect_id = 1, pl_x = 0, pl_y = 0, w_eff = 4, h_eff = 3, rotated = False\<rparr>,
                          \<lparr>rect_id = 2, pl_x = 6, pl_y = 0, w_eff = 4, h_eff = 3, rotated = False\<rparr>],
            sol_method = ''Heuristic-NFDH'', optimality = Some ''feasible''\<rparr> \<and>
   (6::int) + 4 \<le> strip_W scenario_E"
  using nfdh_kerf_height_general[of hs sol] scenario_E_nfdh
  by (simp add: scenario_E_def)

theorem nfdh_kerf_and_height_witness:
  "wf_instance scenario_E \<and>
   kerf_gaps 2 [\<lparr>rect_id = 1, pl_x = 0, pl_y = 0, w_eff = 4, h_eff = 3, rotated = False\<rparr>,
                \<lparr>rect_id = 2, pl_x = 6, pl_y = 0, w_eff = 4, h_eff = 3, rotated = False\<rparr>] \<and>
   last_shelf_top [\<lparr>rect_id = 1, pl_x = 0, pl_y = 0, w_eff = 4, h_eff = 3, rotated = False\<rparr>,
                   \<lparr>rect_id = 2, pl_x = 6, pl_y = 0, w_eff = 4, h_eff = 3, rotated = False\<rparr>] = 3"
proof -
  have wf: "wf_instance scenario_E"
    by (simp add: wf_instance_def scenario_E_def rect_def)
  have run: "nfdh (heuristic NFDH True scenario_E)
     = Inr \<lparr>sol_H = 3,
            placements = [\<lparr>rect_id = 1, pl_x = 0, pl_y = 0, w_eff = 4, h_eff = 3, rotated = False\<rparr>,
                          \<lparr>rect_id = 2, pl_x = 6, pl_y = 0, w_eff = 4, h_eff = 3, rotated = False\<rparr>],
            sol_method = ''Heuristic-NFDH'', optimality = Some ''feasible''\<rparr>"
    by code_simp
  from nfdh_kerf_and_height [of "heuristic NFDH True scenario_E"
      "\<lparr>sol_H = 3,
        placements = [\<lparr>rect_id = 1, pl_x = 0, pl_y = 0, w_eff = 4, h_eff = 3, rotated = False\<rparr>,
                      \<lparr>rect_id = 2, pl_x = 6, pl_y = 0, w_eff = 4, h_eff = 3, rotated = False\<rparr>],
        sol_method = ''Heuristic-NFDH'', optimality = Some ''feasible''\<rparr>"] wf run
  show ?thesis by (simp add: heuristic_def scenario_E_def)
qed

subsection \<open>The Skyline profile: chains of segments\<close>

lemma chain_append:
  "chain a (xs @ ys) b \<longleftrightarrow> (\<exists>m. chain a xs m \<and> chain m ys b)"
  by (induction xs arbitrary: a) auto

lemma chain_le: "chain a xs b \<Longrightarrow> a \<le> b"
  by (induction xs arbitrary: a) fastforce+

lemma chain_same_ends: "chain a xs a \<Longrightarrow> xs = []"
proof (cases xs)
  case Nil
  then show ?thesis by simp
next
  case (Cons s rest)
  assume c: "chain a xs a"
  obtain xs0 w h where s: "s = (xs0, w, h)" by (cases s)
  with c Cons have "0 < w" "chain (a + w) rest a" by auto
  with chain_le[of "a + w" rest a] show ?thesis by simp
qed

lemma chain_bounds:
  "chain a xs b \<Longrightarrow> s \<in> set xs \<Longrightarrow> a \<le> fst s \<and> 0 < seg_width s \<and> fst s + seg_width s \<le> b"
proof (induction xs arbitrary: a)
  case Nil
  then show ?case by simp
next
  case (Cons t rest)
  obtain xs0 w h where t: "t = (xs0, w, h)" by (cases t)
  with Cons.prems have c: "xs0 = a" "0 < w" "chain (a + w) rest b" by auto
  show ?case
  proof (cases "s = t")
    case True
    with t c chain_le[OF c(3)] show ?thesis by (simp add: seg_width_def)
  next
    case False
    with Cons.prems have "s \<in> set rest" by simp
    from Cons.IH[OF c(3) this] c(2) show ?thesis by simp
  qed
qed

lemma chain_facts:
  "chain a xs b \<Longrightarrow>
   sorted_wrt (\<lambda>s t. fst s + seg_width s \<le> fst t) xs \<and> sorted (map fst xs) \<and>
   sum_list (map seg_width xs) = b - a"
proof (induction xs arbitrary: a)
  case Nil
  then show ?case by simp
next
  case (Cons t rest)
  obtain xs0 w h where t: "t = (xs0, w, h)" by (cases t)
  with Cons.prems have c: "xs0 = a" "0 < w" "chain (a + w) rest b" by auto
  have "\<forall>s \<in> set rest. a + w \<le> fst s" using chain_bounds[OF c(3)] by blast
  with Cons.IH[OF c(3)] t c show ?case by (auto simp: seg_width_def)
qed

lemma sort_key_tail_min:
  assumes "sorted (map f R)" "\<forall>r \<in> set R. f n < f r"
  shows "sort_key f (R @ [n]) = n # R"
  using assms
proof (induction R)
  case Nil
  then show ?case by simp
next
  case (Cons r R)
  then have "sort_key f (R @ [n]) = n # R" by simp
  moreover have "\<not> f r \<le> f n" using Cons.prems(2) by auto
  moreover have "insort_key f r R = r # R"
    using Cons.prems(1) by (intro insort_is_Cons) auto
  ultimately show ?case by simp
qed

lemma sort_key_insert_last:
  assumes "sorted (map f (L @ R))" "\<forall>l \<in> set L. f l \<le> f n" "\<forall>r \<in> set R. f n < f r"
  shows "sort_key f (L @ R @ [n]) = L @ [n] @ R"
  using assms
proof (induction L)
  case Nil
  then show ?case using sort_key_tail_min[of f R n] by simp
next
  case (Cons l L)
  then have ih: "sort_key f (L @ R @ [n]) = L @ [n] @ R" by (simp add: sorted_append)
  have "\<forall>v \<in> set (L @ [n] @ R). f l \<le> f v"
    using Cons.prems by (auto simp: sorted_append)
  then have "insort_key f l (L @ [n] @ R) = l # (L @ [n] @ R)"
    by (intro insort_is_Cons)
  with ih show ?case by simp
qed

subsection \<open>The Skyline profile: cutting, sorting and merging\<close>

lemma cut_loop_pieces:
  "cut_loop x xe sky acc = acc @ concat (map (seg_pieces x xe) sky)"
proof (induction sky arbitrary: acc)
  case Nil
  then show ?case by simp
next
  case (Cons s sky)
  obtain xs w h where s: "s = (xs, w, h)" by (cases s)
  show ?case
    by (simp add: s Cons.IH seg_pieces_def Let_def)
qed

lemma cut_chain:
  assumes "chain a sky b" "x < xe"
  shows "\<exists>L R. concat (map (seg_pieces x xe) sky) = L @ R \<and>
               chain (min a x) L (min b x) \<and> chain (max a xe) R (max b xe)"
  using assms(1)
proof (induction sky arbitrary: a)
  case Nil
  then show ?case by auto
next
  case (Cons s sky)
  obtain xs w h where s: "s = (xs, w, h)" by (cases s)
  with Cons.prems have c: "xs = a" "0 < w" "chain (a + w) sky b" by auto
  from Cons.IH[OF c(3)] obtain L R where
    ih: "concat (map (seg_pieces x xe) sky) = L @ R"
        "chain (min (a + w) x) L (min b x)" "chain (max (a + w) xe) R (max b xe)"
    by blast
  from chain_le[OF c(3)] have ab: "a + w \<le> b" .
  consider (left) "a + w \<le> x" | (right) "xe \<le> a" | (mid) "x < a + w" "a < xe" by linarith
  then show ?case
  proof cases
    case left
    then have p: "seg_pieces x xe s = [s]" by (simp add: seg_pieces_def s c)
    have "chain (min a x) (s # L) (min b x)"
      using ih(2) left c by (simp add: s min_def)
    moreover have "chain (max a xe) R (max b xe)"
      using ih(3) left c assms(2) by (simp add: max_def)
    ultimately show ?thesis using p ih(1) by (intro exI[of _ "s # L"] exI[of _ R]) simp
  next
    case right
    then have p: "seg_pieces x xe s = [s]" by (simp add: seg_pieces_def s c)
    from right assms(2) c have "min (a + w) x = x" "min b x = x" using ab by simp_all
    with ih(2) chain_same_ends have L: "L = []" by metis
    have "chain (max a xe) (s # R) (max b xe)"
      using ih(3) right c by (simp add: s max_def)
    moreover have "chain (min a x) [] (min b x)"
      using right assms(2) ab c by simp
    ultimately show ?thesis using p ih(1) L by (intro exI[of _ "[]"] exI[of _ "s # R"]) simp
  next
    case mid
    from mid c have "min (a + w) x = x" "min b x = x" using ab by simp_all
    with ih(2) chain_same_ends have L: "L = []" by metis
    let ?l = "if a < x then [(a, x - a, h)] else []"
    let ?r = "if a + w > xe then [(xe, a + w - xe, h)] else []"
    from mid have p: "seg_pieces x xe s = ?l @ ?r" by (simp add: seg_pieces_def s c)
    have cl: "chain (min a x) ?l (min b x)"
      using mid ab by auto
    have cr: "chain (max a xe) (?r @ R) (max b xe)"
      using ih(3) mid ab by (auto simp: max_def)
    show ?thesis using p ih(1) L cl cr
      by (intro exI[of _ ?l] exI[of _ "?r @ R"]) simp
  qed
qed


lemma merge_loop_chain:
  assumes "chain a (ms @ m # rest) b" "distinct_adj (map seg_height (ms @ [m]))"
  shows "chain a (merge_loop rest (ms @ [m])) b \<and>
         distinct_adj (map seg_height (merge_loop rest (ms @ [m])))"
  using assms
proof (induction rest arbitrary: ms m)
  case Nil
  then show ?case by simp
next
  case (Cons seg rest)
  obtain px pw py where m: "m = (px, pw, py)" by (cases m)
  obtain sx sw sy where seg: "seg = (sx, sw, sy)" by (cases seg)
  from Cons.prems(1) obtain c where
    c: "chain a ms c" "chain c (m # seg # rest) b"
    by (auto simp: chain_append)
  with m seg have st: "px = c" "0 < pw" "sx = px + pw" "0 < sw" "chain (sx + sw) rest b"
    by auto
  show ?case
  proof (cases "py = sy")
    case True
    let ?m' = "(px, pw + sw, py)"
    have ch: "chain a (ms @ ?m' # rest) b"
      using c(1) st by (auto simp: chain_append add.assoc)
    have hm: "seg_height ?m' = seg_height m" by (simp add: m seg_height_def)
    have da: "distinct_adj (map seg_height (ms @ [?m']))"
      using Cons.prems(2) by (simp add: hm)
    have "merge_loop (seg # rest) (ms @ [m]) = merge_loop rest (ms @ [?m'])"
      using True st by (simp add: m seg)
    with Cons.IH[OF ch da] show ?thesis by simp
  next
    case False
    have ch: "chain a ((ms @ [m]) @ seg # rest) b"
      using Cons.prems(1) by simp
    have hs: "seg_height m \<noteq> seg_height seg" using False by (simp add: m seg seg_height_def)
    have da: "distinct_adj (map seg_height ((ms @ [m]) @ [seg]))"
      using Cons.prems(2) hs
      by (simp add: distinct_adj_append_iff)
    have "merge_loop (seg # rest) (ms @ [m]) = merge_loop rest ((ms @ [m]) @ [seg])"
      using False by (simp add: m seg)
    with Cons.IH[OF ch da] show ?thesis by simp
  qed
qed

lemma merge_loop_start:
  assumes "chain a sky b" "sky \<noteq> []"
  shows "chain a (merge_loop sky []) b \<and> distinct_adj (map seg_height (merge_loop sky []))"
proof -
  from assms(2) obtain s rest where sky: "sky = s # rest" by (cases sky) auto
  have "merge_loop sky [] = merge_loop rest ([] @ [s])" by (simp add: sky)
  moreover have "chain a ([] @ s # rest) b" using assms(1) sky by simp
  moreover have "distinct_adj (map seg_height ([] @ [s]))" by simp
  ultimately show ?thesis using merge_loop_chain[of a "[]" s rest b] by simp
qed

lemma sorted_update:
  assumes "chain 0 sky Wd" "0 \<le> x" "0 < we" "x + we \<le> Wd"
  shows "\<exists>L R. sort_key fst (cut_loop x (x + we) sky [] @ [(x, we, v)]) = L @ [(x, we, v)] @ R \<and>
               chain 0 L x \<and> chain (x + we) R Wd \<and>
               set (L @ R) = set (concat (map (seg_pieces x (x + we)) sky))"
proof -
  from assms(3) have lt: "x < x + we" by simp
  from cut_chain[OF assms(1) lt] obtain L R where
    lr: "concat (map (seg_pieces x (x + we)) sky) = L @ R"
        "chain (min 0 x) L (min Wd x)" "chain (max 0 (x + we)) R (max Wd (x + we))"
    by blast
  from assms have mm: "min 0 x = 0" "min Wd x = x" "max 0 (x + we) = x + we" "max Wd (x + we) = Wd"
    by simp_all
  from lr(2,3) have cl: "chain 0 L x" and cr: "chain (x + we) R Wd" by (simp_all add: mm)
  have bl: "\<forall>l \<in> set L. fst l < x" using chain_bounds[OF cl] by fastforce
  have br: "\<forall>r \<in> set R. x + we \<le> fst r" using chain_bounds[OF cr] by fastforce
  have srt: "sorted (map fst (L @ R))"
    using chain_facts[OF cl] chain_facts[OF cr] bl br assms(3)
    by (fastforce simp: sorted_append)
  have "sort_key fst (L @ R @ [(x, we, v)]) = L @ [(x, we, v)] @ R"
  proof (rule sort_key_insert_last[OF srt])
    show "\<forall>l \<in> set L. fst l \<le> fst (x, we, v)" using bl by auto
    show "\<forall>r \<in> set R. fst (x, we, v) < fst r" using br assms(3) by auto
  qed
  then show ?thesis using cl cr lr(1) by (auto simp: cut_loop_pieces)
qed

lemma update_skyline_inv:
  assumes "chain 0 sky Wd" "0 \<le> x" "0 < we" "x + we \<le> Wd"
  shows "skyline_inv Wd (update_skyline sky x we y he)"
proof -
  from sorted_update[OF assms, of "y + he"] obtain L R where
    s: "sort_key fst (cut_loop x (x + we) sky [] @ [(x, we, y + he)]) = L @ [(x, we, y + he)] @ R"
    and cl: "chain 0 L x" and cr: "chain (x + we) R Wd"
    by blast
  have ch: "chain 0 (L @ [(x, we, y + he)] @ R) Wd"
    using cl cr assms(3) by (auto simp: chain_append)
  have ne: "L @ [(x, we, y + he)] @ R \<noteq> []" by simp
  from merge_loop_start[OF ch ne] s
  have m: "chain 0 (update_skyline sky x we y he) Wd"
          "distinct_adj (map seg_height (update_skyline sky x we y he))"
    by (simp_all add: update_skyline_def Let_def)
  from chain_facts[OF m(1)] m update_skyline_nonempty[of sky x we y he]
  show ?thesis by (simp add: skyline_inv_def)
qed

subsection \<open>The Skyline profile: the loop\<close>

lemma find_position_loop_Some:
  "find_position_loop sky i we best = Some (px, py, k) \<Longrightarrow>
   best = Some (px, py, k) \<or>
   (\<exists>s \<in> set sky. fst s = px \<and> seg_height s = py \<and> we \<le> seg_width s)"
proof (induction sky arbitrary: i best)
  case Nil
  then show ?case by simp
next
  case (Cons s sky)
  obtain xs w h where s: "s = (xs, w, h)" by (cases s)
  show ?case
  proof (cases "w < we")
    case True
    with Cons.prems s have "find_position_loop sky (Suc i) we best = Some (px, py, k)" by simp
    from Cons.IH[OF this] show ?thesis by auto
  next
    case False
    from Cons.prems s False obtain b' where
      l: "find_position_loop sky (Suc i) we b' = Some (px, py, k)"
      and b': "b' = best \<or> b' = Some (xs, h, i)"
      by (auto simp: Let_def split: option.splits if_splits)
    from Cons.IH[OF l] b' False s show ?thesis
      by (auto simp: seg_height_def seg_width_def)
  qed
qed

lemma find_position_Some:
  "find_position sky we he = Some (px, py, k) \<Longrightarrow>
   \<exists>s \<in> set sky. fst s = px \<and> seg_height s = py \<and> we \<le> seg_width s"
  using find_position_loop_Some[of sky 0 we None px py k] by (simp add: find_position_def)

lemma skyline_step_inv:
  assumes "chain 0 sky Wd" "sky \<noteq> []" "0 < rect_w r" "0 < rect_h r"
    and "skyline_step Wd allow r sky = Inr (p, sky')"
  shows "skyline_inv Wd sky'"
proof -
  obtain we he rot where o: "orient r allow True = (we, he, rot)" by (cases "orient r allow True")
  with orient_dims[OF o] assms(3,4) have pos: "0 < we" by auto
  from assms(5) o have le: "we \<le> Wd" by (auto simp: skyline_step_def split: if_splits)
  from assms(2) obtain m where m: "py_max (map (\<lambda>s. snd (snd s)) sky) = Inr m"
    by (cases sky) auto
  show ?thesis
  proof (cases "find_position sky we he")
    case None
    with assms(5) o le m have "sky' = update_skyline sky 0 we m he"
      by (auto simp: skyline_step_def)
    with update_skyline_inv[OF assms(1) _ pos, of 0 m he] le show ?thesis by simp
  next
    case (Some pos3)
    obtain px py k where p3: "pos3 = (px, py, k)" by (cases pos3)
    from find_position_Some[of sky we he px py k] Some p3 obtain s where
      s: "s \<in> set sky" "fst s = px" "we \<le> seg_width s" by auto
    from chain_bounds[OF assms(1) s(1)] s have b: "0 \<le> px" "px + we \<le> Wd" by auto
    from assms(5) o le Some p3 have "sky' = update_skyline sky px we py he"
      by (auto simp: skyline_step_def)
    with update_skyline_inv[OF assms(1) b(1) pos b(2), of py he] show ?thesis by simp
  qed
qed

lemma skyline_loop_inv:
  assumes "skyline_inv Wd sky" "\<forall>r \<in> set rs. 0 < rect_w r \<and> 0 < rect_h r"
    and "skyline_loop Wd allow rs sky pls = Inr (pls', sky')"
  shows "skyline_inv Wd sky'"
  using assms
proof (induction rs arbitrary: sky pls)
  case Nil
  then show ?case by simp
next
  case (Cons r rs)
  from Cons.prems(3) obtain p sky1 where
    s: "skyline_step Wd allow r sky = Inr (p, sky1)"
    and l: "skyline_loop Wd allow rs sky1 (pls @ [p]) = Inr (pls', sky')"
    by (auto split: sum.splits)
  from Cons.prems(1) have c: "chain 0 sky Wd" "sky \<noteq> []" by (simp_all add: skyline_inv_def)
  from Cons.prems(2) have r: "0 < rect_w r" "0 < rect_h r" by simp_all
  from skyline_step_inv[OF c r s] have "skyline_inv Wd sky1" .
  from Cons.IH[OF this _ l] Cons.prems(2) show ?case by simp
qed

lemma skyline_loop_append:
  "skyline_loop Wd allow (rs1 @ rs2) sky pls =
     (case skyline_loop Wd allow rs1 sky pls of
        Inl e \<Rightarrow> Inl e
      | Inr (pls1, sky1) \<Rightarrow> skyline_loop Wd allow rs2 sky1 pls1)"
  by (induction rs1 arbitrary: sky pls) (auto split: sum.splits)

lemma initial_profile_inv: "0 < Wd \<Longrightarrow> skyline_inv Wd [(0, Wd, 0)]"
  by (simp add: skyline_inv_def seg_width_def)

text \<open>
  C9. On a well-formed instance the profile is in order initially and after every
  update: the run of the placement loop over the first \<open>k\<close> rectangles (any \<open>k\<close>, so every
  intermediate state by \<open>skyline_loop_append\<close>) ends, when it raises nothing, with a
  profile that is sorted by \<open>x_start\<close>, whose segments are contiguous and do not overlap,
  cover the strip from 0 to its width, and hold no two neighbours of equal height.
\<close>

theorem skyline_profile_invariant:
  assumes "wf_instance inst"
    and "skyline_loop (strip_W inst) allow (take k (skyline_rects inst allow))
           [(0, strip_W inst, 0)] [] = Inr (pls, sky)"
  shows "skyline_inv (strip_W inst) sky"
proof -
  from assms(1) have w: "0 < strip_W inst" by (simp add: wf_instance_def)
  have "\<forall>r \<in> set (take k (skyline_rects inst allow)). 0 < rect_w r \<and> 0 < rect_h r"
    using assms(1) by (auto simp: wf_instance_def list_all_iff skyline_rects_def dest: in_set_takeD)
  from skyline_loop_inv[OF initial_profile_inv[OF w] this assms(2)] show ?thesis .
qed

theorem skyline_profile_invariant_witness:
  "wf_instance four_items \<and> skyline_inv 10 [(0, 5, 7), (5, 1, 2), (6, 4, 6)]"
proof -
  have wf: "wf_instance four_items"
    by (simp add: wf_instance_def four_items_def rect_def)
  have run: "skyline_loop (strip_W four_items) True (take 4 (skyline_rects four_items True))
               [(0, strip_W four_items, 0)] []
             = Inr ([\<lparr>rect_id = 3, pl_x = 0, pl_y = 0, w_eff = 6, h_eff = 2, rotated = True\<rparr>,
                     \<lparr>rect_id = 4, pl_x = 0, pl_y = 2, w_eff = 5, h_eff = 5, rotated = False\<rparr>,
                     \<lparr>rect_id = 1, pl_x = 6, pl_y = 0, w_eff = 4, h_eff = 3, rotated = False\<rparr>,
                     \<lparr>rect_id = 2, pl_x = 6, pl_y = 3, w_eff = 4, h_eff = 3, rotated = False\<rparr>],
                    [(0, 5, 7), (5, 1, 2), (6, 4, 6)])"
    by code_simp
  from skyline_profile_invariant [OF wf run] wf show ?thesis
    by (simp add: four_items_def)
qed

subsection \<open>The Skyline policy: facts used for feasibility\<close>

lemma fold_max_ge: "(v::int) \<le> fold max vs v \<and> (\<forall>u \<in> set vs. u \<le> fold max vs v)"
proof (induction vs arbitrary: v)
  case Nil
  then show ?case by simp
next
  case (Cons u vs)
  from Cons.IH[of "max u v"] show ?case by auto
qed

lemma py_max_ge: "py_max vs = Inr m \<Longrightarrow> u \<in> set vs \<Longrightarrow> u \<le> m"
  using fold_max_ge by (cases vs) auto

lemma fold_max_in: "fold max vs (v::int) \<in> insert v (set vs)"
proof (induction vs arbitrary: v)
  case Nil
  then show ?case by simp
next
  case (Cons u vs)
  from Cons.IH[of "max u v"] show ?case by (auto simp: max_def split: if_splits)
qed

lemma py_max_in: "py_max vs = Inr m \<Longrightarrow> m \<in> set vs"
  using fold_max_in by (cases vs) auto

lemma chain_cover:
  "chain a sky b \<Longrightarrow> a \<le> t \<Longrightarrow> t < b \<Longrightarrow> \<exists>s \<in> set sky. fst s \<le> t \<and> t < fst s + seg_width s"
proof (induction sky arbitrary: a)
  case Nil
  then show ?case by simp
next
  case (Cons s sky)
  obtain xs w h where s: "s = (xs, w, h)" by (cases s)
  with Cons.prems have c: "xs = a" "0 < w" "chain (a + w) sky b" by auto
  show ?case
  proof (cases "t < a + w")
    case True
    with Cons.prems(2) c s show ?thesis by (auto simp: seg_width_def)
  next
    case False
    with Cons.IH[OF c(3) _ Cons.prems(3)] show ?thesis by auto
  qed
qed

lemma seg_pieces_sub:
  assumes "t \<in> set (seg_pieces x xe s)"
  shows "seg_height t = seg_height s \<and> fst s \<le> fst t \<and>
         fst t + seg_width t \<le> fst s + seg_width s \<and>
         (fst t + seg_width t \<le> x \<or> xe \<le> fst t)"
proof -
  obtain xs w h where s: "s = (xs, w, h)" by (cases s)
  from assms show ?thesis
    unfolding s seg_pieces_def
    by (auto simp: seg_height_def seg_width_def split: if_splits)
qed

lemma merge_loop_step_empty: "merge_loop (seg # xs) [] = merge_loop xs [seg]"
  by simp

lemma merge_loop_step_merge:
  assumes "acc \<noteq> []" "last acc = (px, pw, py)" "px + pw = sx"
  shows "merge_loop ((sx, sw, py) # xs) acc = merge_loop xs (butlast acc @ [(px, pw + sw, py)])"
  using assms by (simp del: append_butlast_last_id)

lemma merge_loop_step_keep:
  assumes "acc \<noteq> []" "last acc = (px, pw, py)" "\<not> (py = sy \<and> px + pw = sx)"
  shows "merge_loop ((sx, sw, sy) # xs) acc = merge_loop xs (acc @ [(sx, sw, sy)])"
  using assms by (auto simp del: append_butlast_last_id)


lemma merge_loop_pred:
  assumes "\<forall>s \<in> set xs \<union> set acc. D s"
    and "\<And>px pw py sw. D (px, pw, py) \<Longrightarrow> D (px + pw, sw, py) \<Longrightarrow> D (px, pw + sw, py)"
  shows "\<forall>s \<in> set (merge_loop xs acc). D s"
  using assms(1)
proof (induction xs arbitrary: acc)
  case Nil
  then show ?case by simp
next
  case (Cons seg xs)
  obtain sx sw sy where seg: "seg = (sx, sw, sy)" by (cases seg)
  from Cons.prems have dseg: "D seg" and dxs: "\<forall>s \<in> set xs. D s" and dacc: "\<forall>s \<in> set acc. D s"
    by auto
  show ?case
  proof (cases "acc = []")
    case True
    have "\<forall>s \<in> set xs \<union> set [seg]. D s" using dseg dxs by auto
    from Cons.IH[OF this] show ?thesis
      unfolding True merge_loop_step_empty .
  next
    case False
    obtain px pw py where l: "last acc = (px, pw, py)" by (cases "last acc")
    from False dacc have dl: "D (last acc)" by auto
    have db: "\<forall>s \<in> set (butlast acc). D s"
      using dacc by (auto dest: in_set_butlastD)
    show ?thesis
    proof (cases "py = sy \<and> px + pw = sx")
      case True
      from dl l have "D (px, pw, py)" by simp
      moreover from dseg seg True have "D (px + pw, sw, py)" by simp
      ultimately have "D (px, pw + sw, py)" by (rule assms(2))
      with db dxs have "\<forall>s \<in> set xs \<union> set (butlast acc @ [(px, pw + sw, py)]). D s"
        by auto
      from Cons.IH[OF this] have "\<forall>s \<in> set (merge_loop xs (butlast acc @ [(px, pw + sw, py)])). D s" .
      moreover from True have "seg = (sx, sw, py)" "px + pw = sx" by (simp_all add: seg)
      ultimately show ?thesis
        using merge_loop_step_merge[OF False l, of sx sw xs] by metis
    next
      case no: False
      have "\<forall>s \<in> set xs \<union> set (acc @ [seg]). D s" using dacc dxs dseg by auto
      from Cons.IH[OF this] show ?thesis
        unfolding seg merge_loop_step_keep[OF False l no] .
    qed
  qed
qed

text \<open>The profile stays on or above the placements when it is updated.\<close>

lemma dominate_merge:
  assumes "fst (px, pw, py) < pl_x p + w_eff p \<and> pl_x p < fst (px, pw, py) + seg_width (px, pw, py)
             \<longrightarrow> pl_y p + h_eff p \<le> seg_height (px, pw, py)"
    and "fst (px + pw, sw, py) < pl_x p + w_eff p \<and>
           pl_x p < fst (px + pw, sw, py) + seg_width (px + pw, sw, py)
             \<longrightarrow> pl_y p + h_eff p \<le> seg_height (px + pw, sw, py)"
    and "0 < w_eff p"
  shows "fst (px, pw + sw, py) < pl_x p + w_eff p \<and>
           pl_x p < fst (px, pw + sw, py) + seg_width (px, pw + sw, py)
             \<longrightarrow> pl_y p + h_eff p \<le> seg_height (px, pw + sw, py)"
  using assms by (simp add: seg_width_def seg_height_def) linarith

lemma set_updated:
  "set (sort_key fst (cut_loop x xe sky [] @ [new])) =
     insert new (\<Union>s \<in> set sky. set (seg_pieces x xe s))"
  by (simp add: cut_loop_pieces)

lemma update_skyline_pred:
  assumes "\<forall>s \<in> set sky. \<forall>t \<in> set (seg_pieces x (x + we) s). D t"
    and "D (x, we, y + he)"
    and "\<And>px pw py sw. D (px, pw, py) \<Longrightarrow> D (px + pw, sw, py) \<Longrightarrow> D (px, pw + sw, py)"
  shows "\<forall>s \<in> set (update_skyline sky x we y he). D s"
proof -
  have "\<forall>s \<in> set (sort_key fst (cut_loop x (x + we) sky [] @ [(x, we, y + he)])) \<union> set []. D s"
    using assms(1,2) unfolding set_updated by auto
  from merge_loop_pred[of _ "[]" D, OF this assms(3)]
  show ?thesis by (simp add: update_skyline_def Let_def)
qed

lemma update_heights_nonneg:
  assumes "\<forall>s \<in> set sky. 0 \<le> seg_height s" "0 \<le> y + he"
  shows "\<forall>s \<in> set (update_skyline sky x we y he). 0 \<le> seg_height s"
proof (rule update_skyline_pred)
  show "\<forall>s \<in> set sky. \<forall>t \<in> set (seg_pieces x (x + we) s). 0 \<le> seg_height t"
    using assms(1) seg_pieces_sub by metis
  show "0 \<le> seg_height (x, we, y + he)" using assms(2) by (simp add: seg_height_def)
  show "\<And>px pw py sw. 0 \<le> seg_height (px, pw, py) \<Longrightarrow> 0 \<le> seg_height (px + pw, sw, py)
          \<Longrightarrow> 0 \<le> seg_height (px, pw + sw, py)"
    by (simp add: seg_height_def)
qed

lemma update_dominates_old:
  assumes "sky_dominates pls sky" "\<forall>p \<in> set pls. 0 < w_eff p" "0 \<le> he"
    and "\<forall>p \<in> set pls. x < pl_x p + w_eff p \<and> pl_x p < x + we \<longrightarrow> pl_y p + h_eff p \<le> y"
  shows "sky_dominates pls (update_skyline sky x we y he)"
proof -
  have "\<forall>s \<in> set (update_skyline sky x we y he).
          fst s < pl_x p + w_eff p \<and> pl_x p < fst s + seg_width s
            \<longrightarrow> pl_y p + h_eff p \<le> seg_height s" if p: "p \<in> set pls" for p
  proof (rule update_skyline_pred)
    show "\<forall>s \<in> set sky. \<forall>t \<in> set (seg_pieces x (x + we) s).
            fst t < pl_x p + w_eff p \<and> pl_x p < fst t + seg_width t
              \<longrightarrow> pl_y p + h_eff p \<le> seg_height t"
    proof (intro ballI impI)
      fix s t
      assume s: "s \<in> set sky" and t: "t \<in> set (seg_pieces x (x + we) s)"
        and ov: "fst t < pl_x p + w_eff p \<and> pl_x p < fst t + seg_width t"
      from seg_pieces_sub[OF t] ov
      have "fst s < pl_x p + w_eff p \<and> pl_x p < fst s + seg_width s"
        and h: "seg_height t = seg_height s"
        by auto
      with assms(1) p s show "pl_y p + h_eff p \<le> seg_height t"
        by (auto simp: sky_dominates_def)
    qed
    show "fst (x, we, y + he) < pl_x p + w_eff p \<and>
            pl_x p < fst (x, we, y + he) + seg_width (x, we, y + he)
              \<longrightarrow> pl_y p + h_eff p \<le> seg_height (x, we, y + he)"
      using assms(3,4) p by (auto simp: seg_width_def seg_height_def)
    show "\<And>px pw py sw.
            fst (px, pw, py) < pl_x p + w_eff p \<and>
              pl_x p < fst (px, pw, py) + seg_width (px, pw, py)
                \<longrightarrow> pl_y p + h_eff p \<le> seg_height (px, pw, py) \<Longrightarrow>
            fst (px + pw, sw, py) < pl_x p + w_eff p \<and>
              pl_x p < fst (px + pw, sw, py) + seg_width (px + pw, sw, py)
                \<longrightarrow> pl_y p + h_eff p \<le> seg_height (px + pw, sw, py) \<Longrightarrow>
            fst (px, pw + sw, py) < pl_x p + w_eff p \<and>
              pl_x p < fst (px, pw + sw, py) + seg_width (px, pw + sw, py)
                \<longrightarrow> pl_y p + h_eff p \<le> seg_height (px, pw + sw, py)"
      using dominate_merge assms(2) p by blast
  qed
  then show ?thesis by (simp add: sky_dominates_def)
qed

lemma update_dominates_new:
  assumes "0 < we" "pl_x q = x" "w_eff q = we" "pl_y q = y" "h_eff q = he"
  shows "sky_dominates [q] (update_skyline sky x we y he)"
proof -
  from assms(1,3) have wq: "0 < w_eff q" by simp
  have "\<forall>s \<in> set (update_skyline sky x we y he).
          fst s < pl_x q + w_eff q \<and> pl_x q < fst s + seg_width s
            \<longrightarrow> pl_y q + h_eff q \<le> seg_height s"
  proof (rule update_skyline_pred)
    show "\<forall>s \<in> set sky. \<forall>t \<in> set (seg_pieces x (x + we) s).
            fst t < pl_x q + w_eff q \<and> pl_x q < fst t + seg_width t
              \<longrightarrow> pl_y q + h_eff q \<le> seg_height t"
    proof (intro ballI impI)
      fix s t
      assume t: "t \<in> set (seg_pieces x (x + we) s)"
        and ov: "fst t < pl_x q + w_eff q \<and> pl_x q < fst t + seg_width t"
      from seg_pieces_sub[OF t] ov assms(2,3) have False by auto
      then show "pl_y q + h_eff q \<le> seg_height t" ..
    qed
    show "fst (x, we, y + he) < pl_x q + w_eff q \<and>
            pl_x q < fst (x, we, y + he) + seg_width (x, we, y + he)
              \<longrightarrow> pl_y q + h_eff q \<le> seg_height (x, we, y + he)"
      using assms by (simp add: seg_height_def)
    show "\<And>px pw py sw.
            fst (px, pw, py) < pl_x q + w_eff q \<and>
              pl_x q < fst (px, pw, py) + seg_width (px, pw, py)
                \<longrightarrow> pl_y q + h_eff q \<le> seg_height (px, pw, py) \<Longrightarrow>
            fst (px + pw, sw, py) < pl_x q + w_eff q \<and>
              pl_x q < fst (px + pw, sw, py) + seg_width (px + pw, sw, py)
                \<longrightarrow> pl_y q + h_eff q \<le> seg_height (px + pw, sw, py) \<Longrightarrow>
            fst (px, pw + sw, py) < pl_x q + w_eff q \<and>
              pl_x q < fst (px, pw + sw, py) + seg_width (px, pw + sw, py)
                \<longrightarrow> pl_y q + h_eff q \<le> seg_height (px, pw + sw, py)"
      using dominate_merge wq by blast
  qed
  then show ?thesis by (simp add: sky_dominates_def)
qed

lemma sky_dominates_snoc:
  "sky_dominates (pls @ [q]) sky \<longleftrightarrow> sky_dominates pls sky \<and> sky_dominates [q] sky"
  by (auto simp: sky_dominates_def)

subsection \<open>The Skyline policy: the loop keeps the placements apart\<close>

lemma skyline_step_ok:
  assumes ok: "skyline_state_ok Wd sky pls"
    and pos: "0 < rect_w r" "0 < rect_h r"
    and step: "skyline_step Wd allow r sky = Inr (p, sky')"
  shows "skyline_state_ok Wd sky' (pls @ [p])"
proof -
  obtain we he rot where o: "orient r allow True = (we, he, rot)"
    by (cases "orient r allow True")
  from orient_dims[OF o] pos have dims: "0 < we" "0 < he" by auto
  from step o have le: "we \<le> Wd"
    by (auto simp: skyline_step_def split: if_splits)
  from ok have ch: "chain 0 sky Wd" and ne: "sky \<noteq> []"
    and hs: "\<forall>s \<in> set sky. 0 \<le> seg_height s"
    and pl: "\<forall>q \<in> set pls. 0 \<le> pl_x q \<and> 0 \<le> pl_y q \<and> 0 < w_eff q \<and> 0 \<le> h_eff q \<and>
                             pl_x q + w_eff q \<le> Wd"
    and dom: "sky_dominates pls sky" and sep: "all_pairs_separated pls"
    by (simp_all add: skyline_state_ok_def)
  from step o le obtain x y where
    xy: "(case find_position sky we he of
            None \<Rightarrow> map_sum id (\<lambda>m. (0, m)) (py_max (map (\<lambda>s. snd (snd s)) sky))
          | Some (px, py, _) \<Rightarrow> Inr (px, py)) = Inr (x, y)"
    and p: "p = \<lparr>rect_id = rect_ident r, pl_x = x, pl_y = y, w_eff = we, h_eff = he,
                 rotated = rot\<rparr>"
    and sky': "sky' = update_skyline sky x we y he"
    by (auto simp: skyline_step_def split: sum.splits)
  have facts: "0 \<le> x \<and> x + we \<le> Wd \<and> 0 \<le> y \<and>
               (\<forall>q \<in> set pls. x < pl_x q + w_eff q \<and> pl_x q < x + we \<longrightarrow> pl_y q + h_eff q \<le> y)"
  proof (cases "find_position sky we he")
    case None
    with xy obtain m where m: "py_max (map (\<lambda>s. snd (snd s)) sky) = Inr m" and x0: "x = 0"
      and ym: "y = m"
      by (cases "py_max (map (\<lambda>s. snd (snd s)) sky)") auto
    from py_max_in[OF m] obtain s0 where "s0 \<in> set sky" "seg_height s0 = m"
      by (auto simp: seg_height_def)
    with hs have m0: "0 \<le> m" by auto
    have below: "pl_y q + h_eff q \<le> y" if q: "q \<in> set pls" for q
    proof -
      from pl q have b: "0 \<le> pl_x q" "0 < w_eff q" "pl_x q + w_eff q \<le> Wd" by auto
      then have "pl_x q < Wd" by simp
      from chain_cover[OF ch b(1) this] obtain s where
        s: "s \<in> set sky" "fst s \<le> pl_x q" "pl_x q < fst s + seg_width s" by blast
      with b have "fst s < pl_x q + w_eff q \<and> pl_x q < fst s + seg_width s" by simp
      with dom q s(1) have "pl_y q + h_eff q \<le> seg_height s"
        by (auto simp: sky_dominates_def)
      moreover from s(1) have "seg_height s \<in> set (map (\<lambda>s. snd (snd s)) sky)"
        by (auto simp: seg_height_def)
      from py_max_ge[OF m this] have "seg_height s \<le> m" .
      ultimately show ?thesis using ym by simp
    qed
    from x0 ym m0 le below show ?thesis by simp
  next
    case (Some t)
    obtain px py k where t: "t = (px, py, k)" by (cases t)
    with Some xy have xe: "x = px" and ye: "y = py" by auto
    from find_position_Some[of sky we he px py k] Some t obtain s where
      s: "s \<in> set sky" "fst s = px" "seg_height s = py" "we \<le> seg_width s" by auto
    from chain_bounds[OF ch s(1)] have b: "0 \<le> fst s" "fst s + seg_width s \<le> Wd" by auto
    from hs s have y0: "0 \<le> py" by auto
    have below: "pl_y q + h_eff q \<le> y"
      if q: "q \<in> set pls" and ov: "x < pl_x q + w_eff q \<and> pl_x q < x + we" for q
    proof -
      from ov xe s have "fst s < pl_x q + w_eff q \<and> pl_x q < fst s + seg_width s" by auto
      with dom q s(1) have "pl_y q + h_eff q \<le> seg_height s"
        by (auto simp: sky_dominates_def)
      with s ye show ?thesis by simp
    qed
    from xe ye s b y0 below show ?thesis by auto
  qed
  then have x0: "0 \<le> x" and xw: "x + we \<le> Wd" and y0: "0 \<le> y"
    and below: "\<forall>q \<in> set pls. x < pl_x q + w_eff q \<and> pl_x q < x + we \<longrightarrow> pl_y q + h_eff q \<le> y"
    by auto
  from update_skyline_inv[OF ch x0 dims(1) xw, of y he]
  have c1: "chain 0 sky' Wd" "sky' \<noteq> []" by (simp_all add: skyline_inv_def sky')
  from y0 dims have "0 \<le> y + he" by simp
  from update_heights_nonneg[OF hs this]
  have c2: "\<forall>s \<in> set sky'. 0 \<le> seg_height s" by (simp add: sky')
  have c3: "\<forall>q \<in> set (pls @ [p]). 0 \<le> pl_x q \<and> 0 \<le> pl_y q \<and> 0 < w_eff q \<and> 0 \<le> h_eff q \<and>
                                   pl_x q + w_eff q \<le> Wd"
    using pl x0 xw y0 dims by (auto simp: p)
  from pl have wpos: "\<forall>q \<in> set pls. 0 < w_eff q" by auto
  from dims have he0: "0 \<le> he" by simp
  have d1: "sky_dominates pls sky'"
    unfolding sky' by (rule update_dominates_old[OF dom wpos he0 below])
  have d2: "sky_dominates [p] sky'"
    unfolding sky' by (rule update_dominates_new[OF dims(1)]) (simp_all add: p)
  from d1 d2 have c4: "sky_dominates (pls @ [p]) sky'" by (simp add: sky_dominates_snoc)
  have "separated q p" if q: "q \<in> set pls" for q
  proof (cases "x < pl_x q + w_eff q \<and> pl_x q < x + we")
    case True
    with below q have "pl_y q + h_eff q \<le> y" by blast
    then show ?thesis by (simp add: separated_def p)
  next
    case False
    then show ?thesis by (auto simp: separated_def p)
  qed
  with sep have c5: "all_pairs_separated (pls @ [p])"
    by (simp add: all_pairs_separated_snoc)
  from c1 c2 c3 c4 c5 show ?thesis unfolding skyline_state_ok_def by blast
qed

lemma skyline_loop_ok:
  assumes "skyline_state_ok Wd sky pls" "\<forall>r \<in> set rs. 0 < rect_w r \<and> 0 < rect_h r"
    and "skyline_loop Wd allow rs sky pls = Inr (pls', sky')"
  shows "skyline_state_ok Wd sky' pls'"
  using assms
proof (induction rs arbitrary: sky pls)
  case Nil
  then show ?case by simp
next
  case (Cons r rs)
  from Cons.prems(3) obtain p sky1 where
    st: "skyline_step Wd allow r sky = Inr (p, sky1)"
    and lp: "skyline_loop Wd allow rs sky1 (pls @ [p]) = Inr (pls', sky')"
    by (auto split: sum.splits)
  from Cons.prems(2) have pos: "0 < rect_w r" "0 < rect_h r"
    and rest: "\<forall>r \<in> set rs. 0 < rect_w r \<and> 0 < rect_h r" by auto
  from skyline_step_ok[OF Cons.prems(1) pos st]
  show ?case by (rule Cons.IH[OF _ rest lp])
qed

lemma initial_state_ok: "0 < Wd \<Longrightarrow> skyline_state_ok Wd [(0, Wd, 0)] []"
  by (simp add: skyline_state_ok_def sky_dominates_def seg_height_def)

subsection \<open>Feasibility without forbidden zones\<close>

lemma skyline_H_ge:
  assumes "p \<in> set pls"
  shows "pl_y p + h_eff p \<le> skyline_H pls"
proof -
  from assms obtain q qs where c: "pls = q # qs" by (cases pls) auto
  then obtain m where m: "py_max (map (\<lambda>p. pl_y p + h_eff p) pls) = Inr m" by simp
  from assms have "pl_y p + h_eff p \<in> set (map (\<lambda>p. pl_y p + h_eff p) pls)" by auto
  from py_max_ge[OF m this] m show ?thesis by (simp add: skyline_H_def)
qed










subsection \<open>Forbidden zones and the heuristics\<close>


subsection \<open>The heuristics and the exact bounds\<close>

text \<open>
  Separated placements cover disjoint sets of unit cells, so the areas of placements
  that lie in a box add up to at most the area of the box.
\<close>

lemma card_cells:
  assumes "0 \<le> w_eff p" "0 \<le> h_eff p"
  shows "int (card (cells p)) = w_eff p * h_eff p"
proof -
  have "card (cells p) = nat (w_eff p) * nat (h_eff p)"
    by (simp add: cells_def card_cartesian_product)
  with assms show ?thesis by simp
qed

lemma separated_disjoint: "separated p q \<Longrightarrow> cells p \<inter> cells q = {}"
  by (auto simp: separated_def cells_def)

lemma finite_cells: "finite (cells p)"
  by (simp add: cells_def)

lemma cells_card_sum:
  assumes "all_pairs_separated pls" "\<forall>p \<in> set pls. 0 \<le> w_eff p \<and> 0 \<le> h_eff p"
  shows "int (card (\<Union>p \<in> set pls. cells p)) = sum_list (map (\<lambda>p. w_eff p * h_eff p) pls)"
  using assms
proof (induction pls)
  case Nil
  then show ?case by simp
next
  case (Cons a bs)
  from Cons.prems(1) have sa: "\<forall>b \<in> set bs. separated a b" and sb: "all_pairs_separated bs"
    by (simp_all add: list_all_iff)
  from Cons.prems(2) have da: "0 \<le> w_eff a" "0 \<le> h_eff a"
    and db: "\<forall>p \<in> set bs. 0 \<le> w_eff p \<and> 0 \<le> h_eff p" by simp_all
  have dis: "cells a \<inter> (\<Union>p \<in> set bs. cells p) = {}"
    using sa separated_disjoint by blast
  have fin: "finite (\<Union>p \<in> set bs. cells p)" using finite_cells by blast
  have "card (\<Union>p \<in> set (a # bs). cells p) = card (cells a \<union> (\<Union>p \<in> set bs. cells p))"
    by simp
  also have "\<dots> = card (cells a) + card (\<Union>p \<in> set bs. cells p)"
    by (rule card_Un_disjoint[OF finite_cells fin dis])
  finally show ?case using card_cells[OF da] Cons.IH[OF sb db] by simp
qed

lemma packing_area:
  assumes "all_pairs_separated pls"
    and "\<forall>p \<in> set pls. 0 \<le> pl_x p \<and> 0 \<le> pl_y p \<and> 0 \<le> w_eff p \<and> 0 \<le> h_eff p \<and>
                         pl_x p + w_eff p \<le> Wd \<and> pl_y p + h_eff p \<le> Hd"
    and "0 \<le> Wd" "0 \<le> Hd"
  shows "sum_list (map (\<lambda>p. w_eff p * h_eff p) pls) \<le> Wd * Hd"
proof -
  have sub: "(\<Union>p \<in> set pls. cells p) \<subseteq> {0 ..< Wd} \<times> {0 ..< Hd}"
    using assms(2) by (fastforce simp: cells_def)
  have "card (\<Union>p \<in> set pls. cells p) \<le> card ({0 ..< Wd} \<times> {0 ..< Hd})"
    by (rule card_mono[OF _ sub]) simp
  also have "\<dots> = nat Wd * nat Hd" by (simp add: card_cartesian_product)
  finally have "int (card (\<Union>p \<in> set pls. cells p)) \<le> Wd * Hd"
    using assms(3,4) by (metis int_nat_eq nat_mult_distrib of_nat_le_iff of_nat_mult zero_le_mult_iff)
  moreover from assms(2) have "\<forall>p \<in> set pls. 0 \<le> w_eff p \<and> 0 \<le> h_eff p" by simp
  from cells_card_sum[OF assms(1) this]
  have "int (card (\<Union>p \<in> set pls. cells p)) = sum_list (map (\<lambda>p. w_eff p * h_eff p) pls)" .
  ultimately show ?thesis by simp
qed


lemma orient_area: "fst (orient r allow True) * fst (snd (orient r allow True)) = area r"
  by (simp add: orient_def area_def)

lemma orient_height:
  "fst (snd (orient r allow True))
   = (if allow \<and> rotatable r then min (rect_h r) (rect_w r) else rect_h r)"
  by (simp add: orient_def)

lemma skyline_step_dims:
  "skyline_step Wd allow r sky = Inr (p, sky') \<Longrightarrow>
   w_eff p = fst (orient r allow True) \<and> h_eff p = fst (snd (orient r allow True))"
  by (auto simp: skyline_step_def split: prod.splits if_splits sum.splits option.splits)

lemma skyline_loop_dims:
  "skyline_loop Wd allow rs sky pls = Inr (pls', sky') \<Longrightarrow>
   map (\<lambda>p. (w_eff p, h_eff p)) pls'
   = map (\<lambda>p. (w_eff p, h_eff p)) pls
     @ map (\<lambda>r. (fst (orient r allow True), fst (snd (orient r allow True)))) rs"
proof (induction rs arbitrary: sky pls)
  case Nil
  then show ?case by simp
next
  case (Cons r rs)
  from Cons.prems obtain p sky1 where
    s: "skyline_step Wd allow r sky = Inr (p, sky1)"
    and l: "skyline_loop Wd allow rs sky1 (pls @ [p]) = Inr (pls', sky')"
    by (auto split: sum.splits)
  from Cons.IH[OF l] skyline_step_dims[OF s] show ?case by simp
qed

lemma nfdh_loop_dims:
  "nfdh_loop Wd d allow items pls x sy sh f = Inr (pls', sy', sh') \<Longrightarrow>
   map (\<lambda>p. (w_eff p, h_eff p)) pls'
   = map (\<lambda>p. (w_eff p, h_eff p)) pls
     @ map (\<lambda>t. (fst (orient (fst t) allow True), fst (snd (orient (fst t) allow True)))) items"
proof (induction items arbitrary: pls x sy sh f)
  case Nil
  then show ?case by simp
next
  case (Cons it items)
  obtain r k where it: "it = (r, k)" by (cases it)
  obtain we he rot where o: "orient r allow True = (we, he, rot)" by (cases "orient r allow True")
  from Cons.prems it o obtain p x1 sy1 sh1 where
    l: "nfdh_loop Wd d allow items (pls @ [p]) x1 sy1 sh1 False = Inr (pls', sy', sh')"
    and p: "w_eff p = we" "h_eff p = he"
    by (auto simp: Let_def split: if_splits)
  from Cons.IH[OF l] p it o show ?case by simp
qed

lemma sum_list_sort_key: "sum_list (map f (sort_key k xs)) = sum_list (map (f :: 'a \<Rightarrow> int) xs)"
proof -
  have "mset (map f (sort_key k xs)) = mset (map f xs)" by simp
  then show ?thesis by (metis sum_mset_sum_list)
qed

text \<open>
  What the two loops return: placements inside the strip and below the returned height,
  pairwise separated, with the dimensions the orientation rule gives the rectangles in
  the order of processing.
\<close>

lemma nfdh_packing:
  assumes wf: "wf_instance (hs_instance hs)" and run: "nfdh hs = Inr sol"
  shows "all_pairs_separated (placements sol) \<and> 0 \<le> sol_H sol \<and>
         (\<forall>p \<in> set (placements sol).
            0 \<le> pl_x p \<and> 0 \<le> pl_y p \<and> pl_x p + w_eff p \<le> strip_W (hs_instance hs) \<and>
            pl_y p + h_eff p \<le> sol_H sol) \<and>
         mset (map (\<lambda>p. (w_eff p, h_eff p)) (placements sol))
         = mset (map (\<lambda>r. (fst (orient r (allow_rotation hs) True),
                            fst (snd (orient r (allow_rotation hs) True))))
                  (rectangles (hs_instance hs)))"
proof -
  let ?W = "strip_W (hs_instance hs)"
  let ?allow = "allow_rotation hs"
  from run obtain pls sy sh where
    l: "nfdh_loop ?W (kerf_delta (hs_instance hs)) ?allow
          (nfdh_items (hs_instance hs) ?allow) [] 0 0 0 True = Inr (pls, sy, sh)"
    and sol: "placements sol = pls" "sol_H sol = sy + sh"
    by (auto simp: nfdh_def split: sum.splits)
  from wf have d: "0 \<le> kerf_delta (hs_instance hs)" by (simp add: wf_instance_def)
  have init: "nfdh_geom ?W [] 0 0 0" by (simp add: nfdh_geom_def)
  from nfdh_loop_geom[OF d wf_instance_items[OF wf] l init] obtain x' where
    g: "nfdh_geom ?W pls x' sy sh" by blast
  then have b: "\<forall>p \<in> set pls. 0 \<le> pl_x p \<and> 0 \<le> pl_y p \<and> pl_x p + w_eff p \<le> ?W \<and>
                  pl_y p + h_eff p \<le> sy + sh"
    unfolding nfdh_geom_def by auto
  from g have sep: "all_pairs_separated pls" and h0: "0 \<le> sy + sh"
    by (simp_all add: nfdh_geom_def)
  have "map (\<lambda>p. (w_eff p, h_eff p)) pls
        = map (\<lambda>t. (fst (orient (fst t) ?allow True), fst (snd (orient (fst t) ?allow True))))
            (nfdh_items (hs_instance hs) ?allow)"
    using nfdh_loop_dims[OF l] by simp
  also have "mset \<dots> = mset (map (\<lambda>r. (fst (orient r ?allow True),
                                          fst (snd (orient r ?allow True))))
                                (rectangles (hs_instance hs)))"
    by (simp add: nfdh_items_def multiset.map_comp comp_def)
  finally show ?thesis using b sep h0 sol by simp
qed

lemma skyline_packing:
  assumes wf: "wf_instance (hs_instance hs)" and run: "skyline hs = Inr sol"
  shows "all_pairs_separated (placements sol) \<and> 0 \<le> sol_H sol \<and>
         (\<forall>p \<in> set (placements sol).
            0 \<le> pl_x p \<and> 0 \<le> pl_y p \<and> pl_x p + w_eff p \<le> strip_W (hs_instance hs) \<and>
            pl_y p + h_eff p \<le> sol_H sol) \<and>
         mset (map (\<lambda>p. (w_eff p, h_eff p)) (placements sol))
         = mset (map (\<lambda>r. (fst (orient r (allow_rotation hs) True),
                            fst (snd (orient r (allow_rotation hs) True))))
                  (rectangles (hs_instance hs)))"
proof (cases "guillotine hs")
  case True
  with run have "nfdh hs = Inr sol" by (simp add: skyline_def)
  from nfdh_packing[OF wf this] show ?thesis .
next
  case False
  let ?W = "strip_W (hs_instance hs)"
  let ?allow = "allow_rotation hs"
  from False run obtain pls sky where
    l: "skyline_loop ?W ?allow (skyline_rects (hs_instance hs) ?allow) [(0, ?W, 0)] []
        = Inr (pls, sky)"
    and sol: "placements sol = pls" "sol_H sol = skyline_H pls"
    by (auto simp: skyline_def split: sum.splits)
  from wf have w: "0 < ?W" by (simp add: wf_instance_def)
  from wf have pos: "\<forall>r \<in> set (skyline_rects (hs_instance hs) ?allow).
                       0 < rect_w r \<and> 0 < rect_h r"
    by (simp add: wf_instance_def list_all_iff skyline_rects_def)
  from skyline_loop_ok[OF initial_state_ok[OF w] pos l]
  have ok: "skyline_state_ok ?W sky pls" .
  then have b: "\<forall>p \<in> set pls. 0 \<le> pl_x p \<and> 0 \<le> pl_y p \<and> pl_x p + w_eff p \<le> ?W \<and>
                  pl_y p + h_eff p \<le> skyline_H pls"
    unfolding skyline_state_ok_def using skyline_H_ge by blast
  from ok have sep: "all_pairs_separated pls" by (simp add: skyline_state_ok_def)
  have h0: "0 \<le> skyline_H pls"
  proof (cases pls)
    case Nil
    then show ?thesis by (simp add: skyline_H_def)
  next
    case (Cons q qs)
    then have q: "q \<in> set pls" by simp
    with ok have "0 \<le> pl_y q" "0 \<le> h_eff q" by (auto simp: skyline_state_ok_def)
    with skyline_H_ge[OF q] show ?thesis by simp
  qed
  have "map (\<lambda>p. (w_eff p, h_eff p)) pls
        = map (\<lambda>r. (fst (orient r ?allow True), fst (snd (orient r ?allow True))))
            (skyline_rects (hs_instance hs) ?allow)"
    using skyline_loop_dims[OF l] by simp
  also have "mset \<dots> = mset (map (\<lambda>r. (fst (orient r ?allow True),
                                          fst (snd (orient r ?allow True))))
                                (rectangles (hs_instance hs)))"
    by (simp add: skyline_rects_def)
  finally show ?thesis using b sep h0 sol by simp
qed


lemma solve_packing:
  assumes wf: "wf_instance (hs_instance hs)" and run: "solve hs = Inr sol"
  shows "all_pairs_separated (placements sol) \<and> 0 \<le> sol_H sol \<and>
         (\<forall>p \<in> set (placements sol).
            0 \<le> pl_x p \<and> 0 \<le> pl_y p \<and> pl_x p + w_eff p \<le> strip_W (hs_instance hs) \<and>
            pl_y p + h_eff p \<le> sol_H sol) \<and>
         mset (map (\<lambda>p. (w_eff p, h_eff p)) (placements sol))
         = mset (map (\<lambda>r. (fst (orient r (allow_rotation hs) True),
                            fst (snd (orient r (allow_rotation hs) True))))
                  (rectangles (hs_instance hs)))"
proof (cases "hpolicy hs")
  case NFDH
  with run have "nfdh hs = Inr sol" by (simp add: solve_def)
  from nfdh_packing[OF wf this] show ?thesis .
next
  case Skyline
  with run have "skyline hs = Inr sol" by (simp add: solve_def)
  from skyline_packing[OF wf this] show ?thesis .
next
  case OtherPolicy
  with run show ?thesis by (simp add: solve_def)
qed

lemma sum_list_mset_cong:
  assumes "mset xs = mset ys"
  shows "sum_list (map g xs) = sum_list (map (g :: 'a \<Rightarrow> int) ys)"
proof -
  from assms have "mset (map g xs) = mset (map g ys)" by simp
  then show ?thesis by (metis sum_mset_sum_list)
qed

text \<open>
  The height either policy returns on a well-formed instance is at least the exact area
  bound, the ceiling of the total area over the strip width, and at least \<open>maxh_lb\<close>.
\<close>

lemma solve_exact_bounds:
  assumes wf: "wf_instance (hs_instance hs)" and run: "solve hs = Inr sol"
  shows "\<lceil>real_of_int (sum_list (map area (rectangles (hs_instance hs))))
          / real_of_int (strip_W (hs_instance hs))\<rceil> \<le> sol_H sol"
    and "maxh_lb (hs_instance hs) (allow_rotation hs) = Inr m \<Longrightarrow> m \<le> sol_H sol"
proof -
  let ?inst = "hs_instance hs"
  let ?allow = "allow_rotation hs"
  let ?dims = "\<lambda>r. (fst (orient r ?allow True), fst (snd (orient r ?allow True)))"
  let ?pls = "placements sol"
  from solve_packing[OF wf run] have
    sep: "all_pairs_separated ?pls" and h0: "0 \<le> sol_H sol"
    and b: "\<forall>p \<in> set ?pls. 0 \<le> pl_x p \<and> 0 \<le> pl_y p \<and> pl_x p + w_eff p \<le> strip_W ?inst \<and>
                             pl_y p + h_eff p \<le> sol_H sol"
    and ms: "mset (map (\<lambda>p. (w_eff p, h_eff p)) ?pls) = mset (map ?dims (rectangles ?inst))"
    by simp_all
  from wf have w: "0 < strip_W ?inst"
    and pos: "\<forall>r \<in> set (rectangles ?inst). 0 < rect_w r \<and> 0 < rect_h r"
    by (simp_all add: wf_instance_def list_all_iff)
  from ms have sets: "set (map (\<lambda>p. (w_eff p, h_eff p)) ?pls) = set (map ?dims (rectangles ?inst))"
    by (rule mset_eq_setD)
  have dpos: "0 \<le> w_eff p \<and> 0 \<le> h_eff p" if p: "p \<in> set ?pls" for p
  proof -
    from p have "(w_eff p, h_eff p) \<in> set (map (\<lambda>p. (w_eff p, h_eff p)) ?pls)" by force
    with sets obtain r where r: "r \<in> set (rectangles ?inst)" "(w_eff p, h_eff p) = ?dims r"
      by auto
    obtain we he rot where o: "orient r ?allow True = (we, he, rot)"
      by (cases "orient r ?allow True")
    from orient_dims[OF o] pos r(1) have "0 < we" "0 < he" by auto
    with r(2) o show ?thesis by simp
  qed
  with b have b': "\<forall>p \<in> set ?pls. 0 \<le> pl_x p \<and> 0 \<le> pl_y p \<and> 0 \<le> w_eff p \<and> 0 \<le> h_eff p \<and>
                     pl_x p + w_eff p \<le> strip_W ?inst \<and> pl_y p + h_eff p \<le> sol_H sol"
    by blast
  from w have w0: "0 \<le> strip_W ?inst" by simp
  from packing_area[OF sep b' w0 h0]
  have "sum_list (map (\<lambda>p. w_eff p * h_eff p) ?pls) \<le> strip_W ?inst * sol_H sol" .
  moreover have "sum_list (map (\<lambda>p. w_eff p * h_eff p) ?pls)
                 = sum_list (map (\<lambda>t. fst t * snd t) (map (\<lambda>p. (w_eff p, h_eff p)) ?pls))"
    by (simp add: comp_def)
  moreover have "\<dots> = sum_list (map (\<lambda>t. fst t * snd t) (map ?dims (rectangles ?inst)))"
    by (rule sum_list_mset_cong[OF ms])
  moreover have "\<dots> = sum_list (map area (rectangles ?inst))"
    by (simp add: comp_def orient_area)
  ultimately have ar: "sum_list (map area (rectangles ?inst)) \<le> strip_W ?inst * sol_H sol"
    by simp
  then have "real_of_int (sum_list (map area (rectangles ?inst)))
             \<le> real_of_int (strip_W ?inst) * real_of_int (sol_H sol)"
    by (metis of_int_le_iff of_int_mult)
  with w have "real_of_int (sum_list (map area (rectangles ?inst))) / real_of_int (strip_W ?inst)
               \<le> real_of_int (sol_H sol)"
    by (simp add: field_simps)
  then show "\<lceil>real_of_int (sum_list (map area (rectangles ?inst)))
              / real_of_int (strip_W ?inst)\<rceil> \<le> sol_H sol"
    by (simp add: ceiling_le_iff)
  assume mh: "maxh_lb ?inst ?allow = Inr m"
  have "\<exists>r \<in> set (rectangles ?inst). m \<le> fst (snd (orient r ?allow True))"
  proof (cases ?allow)
    case True
    with mh have "py_max (map (\<lambda>r. min (rect_h r) (rect_w r)) (rectangles ?inst)) = Inr m"
      by (simp add: maxh_lb_def)
    from py_max_in[OF this] obtain r where
      "r \<in> set (rectangles ?inst)" "m = min (rect_h r) (rect_w r)" by auto
    then show ?thesis by (auto simp: orient_height intro!: bexI[of _ r])
  next
    case False
    with mh have "py_max (map rect_h (rectangles ?inst)) = Inr m"
      by (simp add: maxh_lb_def)
    from py_max_in[OF this] obtain r where
      "r \<in> set (rectangles ?inst)" "m = rect_h r" by auto
    with False show ?thesis by (auto simp: orient_height intro!: bexI[of _ r])
  qed
  then obtain r where r: "r \<in> set (rectangles ?inst)" "m \<le> fst (snd (orient r ?allow True))"
    by blast
  from r(1) have "?dims r \<in> set (map ?dims (rectangles ?inst))" by simp
  then have "?dims r \<in> set (map (\<lambda>p. (w_eff p, h_eff p)) ?pls)" by (simp only: sets)
  then obtain p where p: "p \<in> set ?pls" "h_eff p = fst (snd (orient r ?allow True))"
    by force
  from b p(1) have "0 \<le> pl_y p" "pl_y p + h_eff p \<le> sol_H sol" by auto
  with p(2) r(2) show "m \<le> sol_H sol" by simp
qed

subsection \<open>The area bound and the returned height\<close>

text \<open>
  The quotient \<open>2^53 + 3\<close> lies halfway between the doubles \<open>2^53 + 2\<close> and \<open>2^53 + 4\<close>;
  the second has the even significand.
\<close>

lemma exponent_tie: "float_exponent (2 ^ 53 + 3) = 53"
proof -
  have a: "(2::real) powr real_of_int 53 = 2 ^ 53" by simp
  have b: "(2::real) powr (real_of_int 53 + 1) = 2 ^ 54" by simp
  have "\<lfloor>log 2 (2 ^ 53 + 3 :: real)\<rfloor> = 53"
    by (subst floor_log_eq_powr_iff) (simp_all only: a b, simp_all)
  then show ?thesis by (simp add: float_exponent_def)
qed

lemma round_tie: "round_half_even ((2 ^ 53 + 3) / 2) = 2 ^ 52 + 2"
proof -
  have f: "\<lfloor>((2::real) ^ 53 + 3) / 2\<rfloor> = 2 ^ 52 + 1"
    by (simp add: floor_eq_iff)
  show ?thesis unfolding round_half_even_def Let_def f by simp
qed

lemma to_double_tie: "to_double (2 ^ 53 + 3) = 2 ^ 53 + 4"
proof -
  have u: "(2::real) powr (real_of_int 53 - 52) = 2" by simp
  have nz: "(2::real) ^ 53 + 3 \<noteq> 0" by simp
  show ?thesis
    unfolding to_double_def Let_def exponent_tie u round_tie using nz by simp
qed

lemma true_div_tie: "true_div (2 ^ 53 + 3) 1 = Inr (2 ^ 53 + 4)"
proof -
  have "(2::real) ^ 53 + 4 \<le> 2 ^ 54" by simp
  also have "\<dots> \<le> 2 ^ 1001" by (rule power_increasing) simp_all
  also have "\<dots> = 2 ^ 1000 * 2" by simp
  also note double_range
  finally have "\<not> 2 powr 1024 \<le> \<bar>(2::real) ^ 53 + 4\<bar>" by simp
  moreover have "real_of_int (2 ^ 53 + 3) / real_of_int 1 = 2 ^ 53 + 3" by simp
  ultimately show ?thesis
    unfolding true_div_def Let_def by (simp only: to_double_tie) simp
qed

lemma big_area: "area_lb big_item = Inr (2 ^ 53 + 4)"
proof -
  have "sum_list (map area (rectangles big_item)) = 2 ^ 53 + 3"
    by (simp add: big_item_def rect_def area_def)
  moreover have "strip_W big_item = 1" by (simp add: big_item_def)
  moreover have "\<lceil>(2::real) ^ 53 + 4\<rceil> = 2 ^ 53 + 4"
    by (simp add: ceiling_eq_iff)
  ultimately show ?thesis
    unfolding area_lb_def Let_def by (simp only: true_div_tie) simp
qed

lemma big_exact:
  "\<lceil>real_of_int (sum_list (map area (rectangles big_item))) / real_of_int (strip_W big_item)\<rceil>
   = 2 ^ 53 + 3"
proof -
  have "real_of_int (sum_list (map area (rectangles big_item))) / real_of_int (strip_W big_item)
        = real_of_int (2 ^ 53 + 3)"
    by (simp add: big_item_def rect_def area_def)
  then show ?thesis by (simp only: ceiling_of_int)
qed

lemma big_heights:
  "map_sum id sol_H (solve (heuristic NFDH False big_item)) = Inr (2 ^ 53 + 3)"
  "map_sum id sol_H (solve (heuristic Skyline False big_item)) = Inr (2 ^ 53 + 3)"
  by code_simp+

text \<open>
  C3. One rectangle of 1 by \<open>2^53 + 3\<close> that must not be rotated, in a strip of width 1,
  rotation not allowed. The total area divided by the width is \<open>2^53 + 3\<close>, and that is
  the height both policies return. \<open>area_lb\<close> divides in floating point: the quotient is
  rounded to \<open>2^53 + 4\<close>, so the bound it returns lies above the returned height.
  The policies are not the cause: their height is never below the exact bounds, as shown
  above.
\<close>

theorem area_bound_exceeds_height:
  "area_lb big_item = Inr (2 ^ 53 + 4) \<and>
   maxh_lb big_item False = Inr (2 ^ 53 + 3) \<and>
   map_sum id sol_H (solve (heuristic NFDH False big_item)) = Inr (2 ^ 53 + 3) \<and>
   map_sum id sol_H (solve (heuristic Skyline False big_item)) = Inr (2 ^ 53 + 3) \<and>
   \<lceil>real_of_int (sum_list (map area (rectangles big_item))) / real_of_int (strip_W big_item)\<rceil>
     = 2 ^ 53 + 3"
proof -
  have "maxh_lb big_item False = Inr (2 ^ 53 + 3)"
    by (simp add: maxh_lb_def big_item_def rect_def)
  with big_area big_heights big_exact show ?thesis by (simp only: simp_thms)
qed

end
